theory Spec2Isabelle
  imports Main "HOL-Library.Code_Target_Nat"
begin

section \<open>Python strings, slices and search primitives\<close>

text \<open>
  A Python \<open>str\<close> is a sequence of Unicode code points; a code point is modelled as a
  natural number and a string as a list of them, so that \<open>length\<close> counts what
  \<open>len\<close> counts. \<open>py_str\<close> turns an ASCII literal into such a string.
\<close>

type_synonym pychar = nat
type_synonym pystr = "nat list"

definition py_str :: "string \<Rightarrow> pystr" where
  "py_str s = map of_char s"

definition LF :: pychar where "LF = 10"
definition CR :: pychar where "CR = 13"
definition SP :: pychar where "SP = 32"

text \<open>
  \<open>str.isspace\<close>, \<open>str.strip\<close> and the regular-expression class \<open>\s\<close> on a \<open>str\<close>
  pattern all use the same test on a code point: TAB, LF, VT, FF, CR, the
  separators FS, GS, RS, US, SPACE, NEL, NBSP and the Unicode space separators.
\<close>

definition isspace :: "pychar \<Rightarrow> bool" where
  "isspace c = ((9 \<le> c \<and> c \<le> 13) \<or> (28 \<le> c \<and> c \<le> 32) \<or> c = 133 \<or> c = 160
     \<or> c = 5760 \<or> (8192 \<le> c \<and> c \<le> 8202) \<or> c = 8232 \<or> c = 8233
     \<or> c = 8239 \<or> c = 8287 \<or> c = 12288)"

text \<open>The character class \<open>[^\S\n]\<close>: whitespace other than the newline.\<close>

definition hws :: "pychar \<Rightarrow> bool" where
  "hws c = (isspace c \<and> c \<noteq> LF)"

text \<open>
  The slice \<open>text[a:b]\<close> for arbitrary integers: a negative bound counts from the end,
  and both bounds are clamped to \<open>0 .. len(text)\<close>. A slice never raises.
\<close>

definition py_clamp :: "nat \<Rightarrow> int \<Rightarrow> nat" where
  "py_clamp n i =
     (if i < 0 then (if i + int n < 0 then 0 else nat (i + int n))
      else if int n < i then n else nat i)"

definition py_slice :: "'a list \<Rightarrow> int \<Rightarrow> int \<Rightarrow> 'a list" where
  "py_slice xs a b =
     (let lo = py_clamp (length xs) a; hi = py_clamp (length xs) b
      in take (hi - lo) (drop lo xs))"

text \<open>\<open>str.strip()\<close> with no argument: whitespace is removed at both ends.\<close>

definition py_strip :: "pystr \<Rightarrow> pystr" where
  "py_strip s = rev (dropWhile isspace (rev (dropWhile isspace s)))"

text \<open>
  \<open>re.sub\<close> for a pattern of the shape \<open>[class]{k,}\<close> with \<open>k \<ge> 1\<close>: scanning from the
  left, a position where a run of at least \<open>k\<close> characters of the class starts is
  matched greedily (the whole maximal run) and replaced; otherwise the character is
  copied and the scan moves one position on.
\<close>

function re_sub_run :: "(pychar \<Rightarrow> bool) \<Rightarrow> nat \<Rightarrow> pystr \<Rightarrow> pystr \<Rightarrow> pystr" where
  "re_sub_run P k repl [] = []"
| "re_sub_run P k repl (c # cs) =
     (if P c \<and> k \<le> length (takeWhile P (c # cs))
      then repl @ re_sub_run P k repl (dropWhile P (c # cs))
      else c # re_sub_run P k repl cs)"
  by pat_completeness auto
termination
  by (relation "measure (\<lambda>(P, k, repl, s). length s)")
     (auto simp: less_Suc_eq_le length_dropWhile_le)

text \<open>
  \<open>[m.start() for m in re.finditer(re.escape(pat), text)]\<close>: the start offsets of the
  non-overlapping occurrences of the literal \<open>pat\<close>, found left to right. After a
  match the scan resumes at its end; an empty match is followed by a scan from the
  next position, so the empty pattern matches at every offset \<open>0 .. len(text)\<close>.
\<close>

function finditer_from :: "pystr \<Rightarrow> pystr \<Rightarrow> nat \<Rightarrow> nat list" where
  "finditer_from pat text i =
     (if length text < i then []
      else if take (length pat) (drop i text) = pat
      then i # finditer_from pat text (i + max 1 (length pat))
      else finditer_from pat text (Suc i))"
  by pat_completeness auto
termination
  by (relation "measure (\<lambda>(pat, text, i). Suc (length text) - i)") auto

declare finditer_from.simps [simp del]

definition py_finditer :: "pystr \<Rightarrow> pystr \<Rightarrow> int list" where
  "py_finditer pat text = map int (finditer_from pat text 0)"

text \<open>\<open>text.rfind(pat)\<close>: the highest offset at which \<open>pat\<close> occurs, or \<open>-1\<close>.\<close>

fun rfind_from :: "pystr \<Rightarrow> pystr \<Rightarrow> nat \<Rightarrow> int" where
  "rfind_from pat text 0 = (if take (length pat) text = pat then 0 else - 1)"
| "rfind_from pat text (Suc i) =
     (if take (length pat) (drop (Suc i) text) = pat then int (Suc i)
      else rfind_from pat text i)"

definition py_rfind :: "pystr \<Rightarrow> pystr \<Rightarrow> int" where
  "py_rfind text pat = rfind_from pat text (length text)"

text \<open>\<open>s.split("\n")\<close>: the pieces between newlines; the empty string gives one empty piece.\<close>

fun py_split_nl :: "pystr \<Rightarrow> pystr list" where
  "py_split_nl [] = [[]]"
| "py_split_nl (c # cs) =
     (if c = LF then [] # py_split_nl cs
      else (case py_split_nl cs of [] \<Rightarrow> [[c]] | l # ls \<Rightarrow> (c # l) # ls))"

datatype py_error = IndexError

section \<open>Text normalisation\<close>

definition sub_cr :: "pystr \<Rightarrow> pystr" where
  "sub_cr text = map (\<lambda>c. if c = CR then LF else c) text"

definition normalise :: "pystr \<Rightarrow> pystr" where
  "normalise text =
     py_strip (re_sub_run hws 1 [SP] (re_sub_run (\<lambda>c. c = LF) 3 [LF, LF] (sub_cr text)))"

section \<open>Mapping normalised positions back to the original\<close>

text \<open>
  The inner \<open>while original[orig_idx].isspace()\<close> loop: reading \<open>original\<close> at an index
  that is not below its length raises \<open>IndexError\<close>.
\<close>

function skip_ws :: "pystr \<Rightarrow> nat \<Rightarrow> py_error + nat" where
  "skip_ws original orig_idx =
     (if length original \<le> orig_idx then Inl IndexError
      else if isspace (original ! orig_idx) then skip_ws original (orig_idx + 1)
      else Inr orig_idx)"
  by pat_completeness auto
termination
  by (relation "measure (\<lambda>(original, orig_idx). length original - orig_idx)") auto

declare skip_ws.simps [simp del]

text \<open>The \<open>for norm_idx, ch in enumerate(normalised)\<close> loop, with its two variables.\<close>

fun map_loop :: "pystr \<Rightarrow> (nat \<times> pychar) list \<Rightarrow> nat \<Rightarrow> (int \<rightharpoonup> nat)
    \<Rightarrow> py_error + (int \<rightharpoonup> nat)" where
  "map_loop original [] orig_idx char_map = Inr char_map"
| "map_loop original ((norm_idx, ch) # rest) orig_idx char_map =
     (if isspace ch then map_loop original rest orig_idx char_map
      else (case skip_ws original orig_idx of
              Inl e \<Rightarrow> Inl e
            | Inr j \<Rightarrow> map_loop original rest (j + 1) (char_map(int norm_idx \<mapsto> j))))"

definition map_norm_to_orig :: "pystr \<Rightarrow> pystr \<Rightarrow> py_error + (int \<rightharpoonup> nat)" where
  "map_norm_to_orig original normalised =
     map_loop original (enumerate 0 normalised) 0 Map.empty"

section \<open>Choosing among occurrences\<close>

fun pick_loop :: "int list \<Rightarrow> pystr \<Rightarrow> int \<Rightarrow> int option" where
  "pick_loop [] text anchor_len = None"
| "pick_loop (idx # rest) text anchor_len =
     (let e = idx + anchor_len
      in if py_slice text e (e + 2) = [LF, LF] then Some idx
         else pick_loop rest text anchor_len)"

text \<open>After the loop, \<open>positions[0]\<close> raises \<open>IndexError\<close> on an empty list.\<close>

definition pick_best_occurrence :: "int list \<Rightarrow> pystr \<Rightarrow> int \<Rightarrow> py_error + int" where
  "pick_best_occurrence positions text anchor_len =
     (case pick_loop positions text anchor_len of
        Some idx \<Rightarrow> Inr idx
      | None \<Rightarrow> (case positions of [] \<Rightarrow> Inl IndexError | p # _ \<Rightarrow> Inr p))"

section \<open>Locating an anchor\<close>

text \<open>
  The body of \<open>locate_anchor\<close> in its two parts. Strategy 1 either returns a pair or
  falls through (\<open>None\<close>) to Strategy 2.
\<close>

definition strategy1 :: "pystr \<Rightarrow> pystr \<Rightarrow> pystr \<Rightarrow> (int \<rightharpoonup> nat) \<Rightarrow> bool
    \<Rightarrow> py_error + (int \<times> int) option" where
  "strategy1 marker norm_text norm_marker char_map is_start =
     (if is_start then
        (let positions = py_finditer norm_marker norm_text
         in if positions \<noteq> [] then
              (case pick_best_occurrence positions norm_text (int (length norm_marker)) of
                 Inl e \<Rightarrow> Inl e
               | Inr best_idx \<Rightarrow>
                   (case char_map best_idx of
                      Some v \<Rightarrow> Inr (Some (int v, int (length marker)))
                    | None \<Rightarrow> Inr None))
            else Inr None)
      else
        (let idx = py_rfind norm_text norm_marker
         in if idx \<noteq> - 1 then
              (case char_map idx of
                 Some v \<Rightarrow> Inr (Some (int v, int (length marker)))
               | None \<Rightarrow> Inr None)
            else Inr None))"

definition strategy2 :: "pystr \<Rightarrow> pystr \<Rightarrow> (int \<rightharpoonup> nat) \<Rightarrow> bool
    \<Rightarrow> py_error + (int \<times> int)" where
  "strategy2 marker norm_text char_map is_start =
     (let lines = filter (\<lambda>line. py_strip line \<noteq> []) (py_split_nl marker)
      in if lines = [] then Inr (- 1, 0)
         else
           (let line_marker = normalise (if is_start then hd lines else last lines);
                positions = py_finditer line_marker norm_text
            in if positions = [] then Inr (- 1, 0)
               else
                 (case (if is_start
                        then pick_best_occurrence positions norm_text (int (length line_marker))
                        else Inr (last positions)) of
                    Inl e \<Rightarrow> Inl e
                  | Inr best_idx \<Rightarrow>
                      (case char_map best_idx of
                         None \<Rightarrow> Inr (- 1, 0)
                       | Some v \<Rightarrow> Inr (int v, int (length line_marker))))))"

definition locate_anchor :: "pystr \<Rightarrow> pystr \<Rightarrow> bool \<Rightarrow> py_error + (int \<times> int)" where
  "locate_anchor text marker is_start =
     (let norm_text = normalise text;
          norm_marker = normalise marker
      in case map_norm_to_orig text norm_text of
           Inl e \<Rightarrow> Inl e
         | Inr char_map \<Rightarrow>
             (case strategy1 marker norm_text norm_marker char_map is_start of
                Inl e \<Rightarrow> Inl e
              | Inr (Some r) \<Rightarrow> Inr r
              | Inr None \<Rightarrow> strategy2 marker norm_text char_map is_start))"

section \<open>Predicates used to state the properties\<close>

text \<open>
  \<open>norun Q k s\<close>: no position of \<open>s\<close> starts a run of \<open>k\<close> or more characters
  satisfying \<open>Q\<close>.
\<close>

fun norun :: "(pychar \<Rightarrow> bool) \<Rightarrow> nat \<Rightarrow> pystr \<Rightarrow> bool" where
  "norun Q k [] = True"
| "norun Q k (c # cs) = (length (takeWhile Q (c # cs)) < k \<and> norun Q k cs)"

text \<open>The second and third substitution of \<open>normalise\<close>.\<close>

abbreviation step2 :: "pystr \<Rightarrow> pystr" where
  "step2 s \<equiv> re_sub_run (\<lambda>c. c = LF) 3 [LF, LF] s"
abbreviation step3 :: "pystr \<Rightarrow> pystr" where
  "step3 s \<equiv> re_sub_run hws 1 [SP] s"

text \<open>
  The selector's test at a position: the slice of two characters after the match is
  a blank line.
\<close>

definition follows_blank :: "pystr \<Rightarrow> int \<Rightarrow> int \<Rightarrow> bool" where
  "follows_blank text anchor_len p =
     (py_slice text (p + anchor_len) (p + anchor_len + 2) = [LF, LF])"

text \<open>
  The precondition of the position mapper: the two strings are the same once all
  whitespace is removed.
\<close>

definition ws_parity :: "pystr \<Rightarrow> pystr \<Rightarrow> bool" where
  "ws_parity original normalised =
     (filter (\<lambda>c. \<not> isspace c) original = filter (\<lambda>c. \<not> isspace c) normalised)"

abbreviation nonws :: "pychar \<Rightarrow> bool" where
  "nonws c \<equiv> \<not> isspace c"

text \<open>
  What a correct position map is, for the lemmas: every non-whitespace index \<open>k\<close> of the
  normalised string is a key, its value \<open>j\<close> is an index of the original carrying the
  same character with the same non-whitespace characters before it, and nothing else
  is a key.
\<close>

definition map_ok :: "pystr \<Rightarrow> pystr \<Rightarrow> (int \<rightharpoonup> nat) \<Rightarrow> bool" where
  "map_ok orig norm m =
     ((\<forall>k<length norm. \<not> isspace (norm ! k) \<longrightarrow>
         (\<exists>j. m (int k) = Some j \<and> j < length orig \<and> orig ! j = norm ! k
            \<and> filter (\<lambda>c. \<not> isspace c) (take j orig)
                = filter (\<lambda>c. \<not> isspace c) (take k norm))) \<and>
      (\<forall>key. (\<forall>k<length norm. key = int k \<longrightarrow> isspace (norm ! k)) \<longrightarrow> m key = None))"

text \<open>The pattern occurs in the text at offset \<open>p\<close>.\<close>

definition occurs_at :: "pystr \<Rightarrow> pystr \<Rightarrow> nat \<Rightarrow> bool" where
  "occurs_at pat text p = (p \<le> length text \<and> take (length pat) (drop p text) = pat)"

text \<open>
  The lines of the marker that Strategy 2 keeps, and the normalised line it searches
  for, named for the statements below.
\<close>

definition marker_lines :: "pystr \<Rightarrow> pystr list" where
  "marker_lines marker = filter (\<lambda>line. py_strip line \<noteq> []) (py_split_nl marker)"

definition line_marker :: "pystr \<Rightarrow> bool \<Rightarrow> pystr" where
  "line_marker marker is_start =
     normalise (if is_start then hd (marker_lines marker) else last (marker_lines marker))"

text \<open>The three substitutions of \<open>normalise\<close>, before the final strip.\<close>

definition collapse :: "pystr \<Rightarrow> pystr" where
  "collapse s = re_sub_run hws 1 [SP] (re_sub_run (\<lambda>c. c = LF) 3 [LF, LF] (sub_cr s))"

section \<open>Basic facts about characters\<close>

lemma isspace_LF: "isspace LF" by (simp add: isspace_def LF_def)
lemma isspace_CR: "isspace CR" by (simp add: isspace_def CR_def)
lemma isspace_SP: "isspace SP" by (simp add: isspace_def SP_def)
lemma hws_SP: "hws SP" by (simp add: hws_def isspace_def SP_def LF_def)
lemma hws_isspace: "hws c \<Longrightarrow> isspace c" by (simp add: hws_def)
lemma not_hws_LF: "\<not> hws LF" by (simp add: hws_def)
lemma SP_neq_LF: "SP \<noteq> LF" by (simp add: SP_def LF_def)
lemma CR_neq_LF: "CR \<noteq> LF" by (simp add: CR_def LF_def)
lemma SP_neq_CR: "SP \<noteq> CR" by (simp add: CR_def SP_def)

subsection \<open>re_sub_run\<close>

lemma re_sub_run_set: "set (re_sub_run P k r s) \<subseteq> set s \<union> set r"
proof (induction P k r s rule: re_sub_run.induct)
  case (1 P k r)
  show ?case by simp
next
  case (2 P k r c cs)
  show ?case
  proof (cases "P c \<and> k \<le> length (takeWhile P (c # cs))")
    case True
    have "set (dropWhile P (c # cs)) \<subseteq> set (c # cs)"
      using set_dropWhileD by fastforce
    with 2(1)[OF True] True show ?thesis by auto
  next
    case False
    with 2(2)[OF False] show ?thesis by auto
  qed
qed

lemma re_sub_run_head:
  "s = [] \<or> \<not> P (hd s) \<Longrightarrow> re_sub_run P k r s = [] \<or> \<not> P (hd (re_sub_run P k r s))"
  by (cases s) auto

lemma re_sub_run_short_run:
  "length (takeWhile P s) < k \<Longrightarrow> takeWhile P (re_sub_run P k r s) = takeWhile P s"
proof (induction s)
  case Nil
  show ?case by simp
next
  case (Cons c cs)
  show ?case
  proof (cases "P c")
    case True
    with Cons.prems have "length (takeWhile P cs) < k" by simp
    from Cons.IH[OF this] Cons.prems True show ?thesis by simp
  next
    case False
    then show ?thesis by simp
  qed
qed

lemma re_sub_run_other_run:
  "(\<forall>c. P c \<longrightarrow> \<not> Q c) \<Longrightarrow> r \<noteq> [] \<Longrightarrow> \<not> Q (hd r)
    \<Longrightarrow> takeWhile Q (re_sub_run P k r s) = takeWhile Q s"
proof (induction P k r s rule: re_sub_run.induct)
  case (1 P k r)
  show ?case by simp
next
  case (2 P k r c cs)
  show ?case
  proof (cases "P c \<and> k \<le> length (takeWhile P (c # cs))")
    case True
    then have "\<not> Q c" using 2(3) by blast
    moreover have "takeWhile Q (r @ re_sub_run P k r (dropWhile P (c # cs))) = []"
      using 2(4,5) by (cases r) auto
    ultimately show ?thesis using True by simp
  next
    case False
    with 2(2)[OF False 2(3,4,5)] show ?thesis by simp
  qed
qed

subsection \<open>norun\<close>

lemma norun_drop: "norun Q k s \<Longrightarrow> norun Q k (drop n s)"
proof (induction s arbitrary: n)
  case Nil
  show ?case by simp
next
  case (Cons c cs)
  show ?case
  proof (cases n)
    case 0
    with Cons.prems show ?thesis by simp
  next
    case (Suc m)
    with Cons show ?thesis by simp
  qed
qed

lemma norun_dropWhile: "norun Q k s \<Longrightarrow> norun Q k (dropWhile P s)"
  by (simp add: dropWhile_eq_drop norun_drop)

lemma takeWhile_take_le: "length (takeWhile Q (take n s)) \<le> length (takeWhile Q s)"
proof (induction s arbitrary: n)
  case Nil
  show ?case by simp
next
  case (Cons c cs)
  show ?case by (cases n) (use Cons.IH in auto)
qed

lemma norun_take: "norun Q k s \<Longrightarrow> norun Q k (take n s)"
proof (induction s arbitrary: n)
  case Nil
  show ?case by simp
next
  case (Cons c cs)
  show ?case
  proof (cases n)
    case 0
    then show ?thesis by simp
  next
    case (Suc m)
    have "length (takeWhile Q (take (Suc m) (c # cs))) \<le> length (takeWhile Q (c # cs))"
      by (rule takeWhile_take_le)
    with Cons Suc show ?thesis by simp
  qed
qed

lemma norun_other_append:
  "\<forall>c\<in>set r. \<not> Q c \<Longrightarrow> 0 < k \<Longrightarrow> norun Q k (r @ x) = norun Q k x"
  by (induction r) auto

lemma norun_same_append:
  "\<forall>c\<in>set r. Q c \<Longrightarrow> x = [] \<or> \<not> Q (hd x) \<Longrightarrow> length r < k \<Longrightarrow> norun Q k x
    \<Longrightarrow> norun Q k (r @ x)"
proof (induction r)
  case Nil
  then show ?case by simp
next
  case (Cons a r)
  have "takeWhile Q (r @ x) = r"
    using Cons.prems(1,2) by (cases x) (auto simp: takeWhile_append2)
  with Cons show ?case by simp
qed

lemma norun_fix: "norun P k s \<Longrightarrow> re_sub_run P k r s = s"
proof (induction s)
  case Nil
  show ?case by simp
next
  case (Cons c cs)
  then show ?case by (simp del: takeWhile.simps)
qed

lemma norun_sub_self:
  "0 < k \<Longrightarrow> k \<le> k' \<Longrightarrow> length r < k' \<Longrightarrow> \<forall>c\<in>set r. P c
    \<Longrightarrow> norun P k' (re_sub_run P k r s)"
proof (induction P k r s rule: re_sub_run.induct)
  case (1 P k r)
  show ?case by simp
next
  case (2 P k r c cs)
  show ?case
  proof (cases "P c \<and> k \<le> length (takeWhile P (c # cs))")
    case True
    let ?x = "re_sub_run P k r (dropWhile P (c # cs))"
    have eq: "re_sub_run P k r (c # cs) = r @ ?x"
      using True by (simp del: takeWhile.simps dropWhile.simps)
    have hd: "?x = [] \<or> \<not> P (hd ?x)"
      by (rule re_sub_run_head) (metis hd_dropWhile)
    have "norun P k' ?x" using 2(1)[OF True 2(3,4,5,6)] .
    then have "norun P k' (r @ ?x)"
      using norun_same_append[OF 2(6) hd 2(5)] by simp
    then show ?thesis unfolding eq .
  next
    case False
    have ih: "norun P k' (re_sub_run P k r cs)" using 2(2)[OF False 2(3,4,5,6)] .
    show ?thesis
    proof (cases "P c")
      case True
      with False have short: "Suc (length (takeWhile P cs)) < k" by simp
      then have "takeWhile P (re_sub_run P k r cs) = takeWhile P cs"
        by (intro re_sub_run_short_run) simp
      with True False short ih 2(4) show ?thesis by simp
    next
      case False
      with ih 2(3,4) show ?thesis by simp
    qed
  qed
qed

lemma norun_sub_other:
  "norun Q k' s \<Longrightarrow> (\<forall>c. P c \<longrightarrow> \<not> Q c) \<Longrightarrow> r \<noteq> [] \<Longrightarrow> \<forall>c\<in>set r. \<not> Q c \<Longrightarrow> 0 < k'
    \<Longrightarrow> norun Q k' (re_sub_run P k r s)"
proof (induction P k r s rule: re_sub_run.induct)
  case (1 P k r)
  show ?case by simp
next
  case (2 P k r c cs)
  show ?case
  proof (cases "P c \<and> k \<le> length (takeWhile P (c # cs))")
    case True
    have eq: "re_sub_run P k r (c # cs) = r @ re_sub_run P k r (dropWhile P (c # cs))"
      using True by (simp del: takeWhile.simps dropWhile.simps)
    have "norun Q k' (dropWhile P (c # cs))" using 2(3) by (rule norun_dropWhile)
    from 2(1)[OF True this 2(4,5,6,7)] 2(6,7) show ?thesis
      unfolding eq by (simp only: norun_other_append)
  next
    case False
    from 2(3) have tl: "norun Q k' cs" and hd: "length (takeWhile Q (c # cs)) < k'" by simp_all
    have "\<not> Q (hd r)" using 2(5,6) by (cases r) auto
    then have "takeWhile Q (re_sub_run P k r cs) = takeWhile Q cs"
      using re_sub_run_other_run[OF 2(4) 2(5)] by simp
    with 2(2)[OF False tl 2(4,5,6,7)] hd False show ?thesis
      by (auto split: if_splits)
  qed
qed

lemma re_sub_run_all_replaced:
  "c \<in> set (re_sub_run P (Suc 0) r s) \<Longrightarrow> P c \<Longrightarrow> c \<in> set r"
proof (induction P "Suc 0" r s rule: re_sub_run.induct)
  case (1 P r)
  then show ?case by simp
next
  case (2 P r a cs)
  show ?case
  proof (cases "P a")
    case True
    with 2 show ?thesis by auto
  next
    case False
    with 2 show ?thesis by auto
  qed
qed

lemma re_sub_run_fix1:
  "norun P 2 s \<Longrightarrow> \<forall>c\<in>set s. P c \<longrightarrow> c = a \<Longrightarrow> re_sub_run P (Suc 0) [a] s = s"
proof (induction s)
  case Nil
  show ?case by simp
next
  case (Cons c cs)
  have ih: "re_sub_run P (Suc 0) [a] cs = cs" using Cons by simp
  show ?case
  proof (cases "P c")
    case True
    with Cons.prems(1) have "takeWhile P cs = []" by simp
    then have "dropWhile P cs = cs" by (metis takeWhile_dropWhile_id append_Nil)
    with True ih Cons.prems(2) show ?thesis by simp
  next
    case False
    with ih show ?thesis by simp
  qed
qed

lemma re_sub_run_filter:
  "(\<forall>c. P c \<longrightarrow> \<not> K c) \<Longrightarrow> \<forall>c\<in>set r. \<not> K c
    \<Longrightarrow> filter K (re_sub_run P k r s) = filter K s"
proof (induction P k r s rule: re_sub_run.induct)
  case (1 P k r)
  show ?case by simp
next
  case (2 P k r c cs)
  show ?case
  proof (cases "P c \<and> k \<le> length (takeWhile P (c # cs))")
    case True
    have eq: "re_sub_run P k r (c # cs) = r @ re_sub_run P k r (dropWhile P (c # cs))"
      using True by (simp del: takeWhile.simps dropWhile.simps)
    have "filter K (takeWhile P (c # cs)) = []"
      using 2(3) by (auto simp: filter_empty_conv dest: set_takeWhileD)
    then have "filter K (c # cs) = filter K (dropWhile P (c # cs))"
      by (metis takeWhile_dropWhile_id filter_append append_Nil)
    moreover have "filter K r = []" using 2(4) by (simp add: filter_empty_conv)
    ultimately show ?thesis using 2(1)[OF True 2(3,4)] unfolding eq by simp
  next
    case False
    with 2(2)[OF False 2(3,4)] show ?thesis by simp
  qed
qed

subsection \<open>py_strip\<close>

lemma rev_dropWhile_rev:
  "rev (dropWhile P (rev t)) = take (length t - length (takeWhile P (rev t))) t"
  by (simp add: dropWhile_eq_drop drop_rev)

lemma py_strip_take_drop:
  "py_strip s = take (length (dropWhile isspace s)
                       - length (takeWhile isspace (rev (dropWhile isspace s))))
                  (drop (length (takeWhile isspace s)) s)"
  unfolding py_strip_def rev_dropWhile_rev by (simp add: dropWhile_eq_drop)

lemma norun_strip: "norun Q k s \<Longrightarrow> norun Q k (py_strip s)"
  unfolding py_strip_take_drop by (intro norun_take norun_drop)

lemma set_py_strip: "set (py_strip s) \<subseteq> set s"
  unfolding py_strip_take_drop
  by (meson set_take_subset set_drop_subset subset_trans)

lemma py_strip_ends:
  "py_strip s = [] \<or> (\<not> isspace (hd (py_strip s)) \<and> \<not> isspace (last (py_strip s)))"
proof (cases "py_strip s = []")
  case True
  then show ?thesis by simp
next
  case False
  let ?t = "dropWhile isspace s"
  let ?x = "dropWhile isspace (rev ?t)"
  have x: "?x \<noteq> []" using False by (simp add: py_strip_def)
  have t: "?t \<noteq> []"
  proof
    assume "?t = []"
    then have "?x = []" by (simp only: rev.simps dropWhile.simps)
    with x show False by simp
  qed
  have "last (py_strip s) = hd ?x" using x by (simp add: py_strip_def last_rev)
  then have l: "\<not> isspace (last (py_strip s))" using x hd_dropWhile by metis
  have "hd (py_strip s) = last ?x" using x by (simp add: py_strip_def hd_rev)
  also have "last ?x = last (rev ?t)"
    using x by (simp add: dropWhile_eq_drop)
  also have "\<dots> = hd ?t" using t by (simp add: last_rev)
  finally have "\<not> isspace (hd (py_strip s))" using t hd_dropWhile by metis
  with l show ?thesis by simp
qed

lemma py_strip_fix:
  "s = [] \<or> (\<not> isspace (hd s) \<and> \<not> isspace (last s)) \<Longrightarrow> py_strip s = s"
proof (cases s)
  case Nil
  then show ?thesis by (simp add: py_strip_def)
next
  case (Cons c cs)
  assume "s = [] \<or> (\<not> isspace (hd s) \<and> \<not> isspace (last s))"
  with Cons have h: "\<not> isspace (hd s)" and l: "\<not> isspace (last s)" by simp_all
  have 1: "dropWhile isspace s = s" using h Cons by simp
  have "hd (rev s) = last s" using Cons by (simp add: hd_rev)
  then have 2: "dropWhile isspace (rev s) = rev s" using l Cons by (cases "rev s") auto
  show ?thesis by (simp add: py_strip_def 1 2)
qed

lemma py_strip_idem: "py_strip (py_strip s) = py_strip s"
  by (rule py_strip_fix) (rule py_strip_ends)

lemma filter_dropWhile_other:
  "(\<forall>c. P c \<longrightarrow> \<not> K c) \<Longrightarrow> filter K (dropWhile P s) = filter K s"
  by (induction s) auto

lemma py_strip_filter:
  "filter (\<lambda>c. \<not> isspace c) (py_strip s) = filter (\<lambda>c. \<not> isspace c) s"
proof -
  have "filter (\<lambda>c. \<not> isspace c) (py_strip s)
      = rev (filter (\<lambda>c. \<not> isspace c) (dropWhile isspace (rev (dropWhile isspace s))))"
    by (simp add: py_strip_def rev_filter)
  also have "\<dots> = rev (filter (\<lambda>c. \<not> isspace c) (rev (dropWhile isspace s)))"
    by (simp add: filter_dropWhile_other)
  also have "\<dots> = filter (\<lambda>c. \<not> isspace c) (dropWhile isspace s)"
    by (simp add: rev_filter)
  also have "\<dots> = filter (\<lambda>c. \<not> isspace c) s"
    by (simp add: filter_dropWhile_other)
  finally show ?thesis .
qed

subsection \<open>normalise\<close>

lemma sub_cr_no_CR: "CR \<notin> set (sub_cr s)"
  by (auto simp: sub_cr_def CR_neq_LF)

lemma sub_cr_fix: "CR \<notin> set s \<Longrightarrow> sub_cr s = s"
  by (induction s) (auto simp: sub_cr_def)

lemma sub_cr_filter: "filter (\<lambda>c. \<not> isspace c) (sub_cr s) = filter (\<lambda>c. \<not> isspace c) s"
  by (induction s) (auto simp: sub_cr_def isspace_CR isspace_LF)

lemma normalise_no_CR: "CR \<notin> set (normalise s)"
proof
  assume "CR \<in> set (normalise s)"
  then have "CR \<in> set (step3 (step2 (sub_cr s)))"
    using set_py_strip unfolding normalise_def by blast
  then have "CR \<in> set (step2 (sub_cr s))"
    using re_sub_run_set[of hws 1 "[SP]" "step2 (sub_cr s)"] SP_neq_CR by auto
  then have "CR \<in> set (sub_cr s)"
    using re_sub_run_set[of "\<lambda>c. c = LF" 3 "[LF, LF]" "sub_cr s"] CR_neq_LF by auto
  then show False using sub_cr_no_CR by simp
qed

lemma normalise_norun_LF: "norun (\<lambda>c. c = LF) 3 (normalise s)"
proof -
  have "norun (\<lambda>c. c = LF) 3 (step2 (sub_cr s))"
    by (rule norun_sub_self) simp_all
  then have "norun (\<lambda>c. c = LF) 3 (step3 (step2 (sub_cr s)))"
    by (rule norun_sub_other) (simp_all add: hws_def SP_neq_LF)
  then show ?thesis unfolding normalise_def by (rule norun_strip)
qed

lemma normalise_norun_hws: "norun hws 2 (normalise s)"
proof -
  have "norun hws 2 (step3 (step2 (sub_cr s)))"
    by (rule norun_sub_self) (simp_all add: hws_SP)
  then show ?thesis unfolding normalise_def by (rule norun_strip)
qed

lemma normalise_hws_SP: "c \<in> set (normalise s) \<Longrightarrow> hws c \<Longrightarrow> c = SP"
proof -
  assume c: "c \<in> set (normalise s)" and h: "hws c"
  from c have "c \<in> set (step3 (step2 (sub_cr s)))"
    using set_py_strip unfolding normalise_def by blast
  then have "c \<in> set [SP]" using h re_sub_run_all_replaced by (metis One_nat_def)
  then show ?thesis by simp
qed

lemma normalise_ends:
  "normalise s = [] \<or> (\<not> isspace (hd (normalise s)) \<and> \<not> isspace (last (normalise s)))"
  unfolding normalise_def by (rule py_strip_ends)

lemma normalise_filter:
  "filter (\<lambda>c. \<not> isspace c) (normalise s) = filter (\<lambda>c. \<not> isspace c) s"
proof -
  have 3: "filter (\<lambda>c. \<not> isspace c) (step3 x) = filter (\<lambda>c. \<not> isspace c) x" for x
    by (rule re_sub_run_filter) (simp_all add: hws_isspace isspace_SP)
  have 2: "filter (\<lambda>c. \<not> isspace c) (step2 x) = filter (\<lambda>c. \<not> isspace c) x" for x
    by (rule re_sub_run_filter) (simp_all add: isspace_LF)
  show ?thesis unfolding normalise_def by (simp only: py_strip_filter 3 2 sub_cr_filter)
qed

lemma normalise_idem: "normalise (normalise s) = normalise s"
proof -
  let ?t = "normalise s"
  have 1: "sub_cr ?t = ?t" by (rule sub_cr_fix) (rule normalise_no_CR)
  have 2: "step2 ?t = ?t" by (rule norun_fix) (rule normalise_norun_LF)
  have 3: "step3 ?t = ?t"
    using re_sub_run_fix1[OF normalise_norun_hws, of s SP] normalise_hws_SP by simp
  have 4: "py_strip ?t = ?t" by (rule py_strip_fix) (rule normalise_ends)
  have "normalise ?t = py_strip (step3 (step2 (sub_cr ?t)))" by (simp only: normalise_def)
  then show ?thesis by (simp only: 1 2 3 4)
qed

lemma norun_no_sublist:
  "norun Q k (ps @ xs @ ss) \<Longrightarrow> \<forall>c\<in>set xs. Q c \<Longrightarrow> xs \<noteq> [] \<Longrightarrow> length xs < k"
proof -
  assume n: "norun Q k (ps @ xs @ ss)" and q: "\<forall>c\<in>set xs. Q c" and ne: "xs \<noteq> []"
  from norun_drop[OF n, of "length ps"] have "norun Q k (xs @ ss)" by simp
  then have "length (takeWhile Q (xs @ ss)) < k" using ne by (cases xs) simp_all
  moreover have "takeWhile Q (xs @ ss) = xs @ takeWhile Q ss"
    using q by (simp add: takeWhile_append2)
  ultimately show ?thesis by simp
qed

section \<open>Properties of the normaliser\<close>

text \<open>
  Claim C6: \<open>normalise\<close> is idempotent; it is a total function of its argument and
  maps the empty string to the empty string.
\<close>

theorem normalise_idempotent:
  "normalise (normalise s) = normalise s \<and> normalise [] = []"
proof
  show "normalise (normalise s) = normalise s" by (rule normalise_idem)
  show "normalise [] = []" by (simp add: normalise_def sub_cr_def py_strip_def)
qed

theorem normalise_idempotent_witness:
  "normalise (normalise [97, CR, LF, LF, LF, LF, 98]) = [97, LF, LF, 98]"
proof -
  have "normalise [97, CR, LF, LF, LF, LF, 98] = [97, LF, LF, 98]" by code_simp
  with normalise_idempotent[of "[97, CR, LF, LF, LF, LF, 98]"] show ?thesis by simp
qed

text \<open>
  Claim C7: a normalised string contains no carriage return, no three consecutive
  newlines, no two consecutive non-newline whitespace characters, and neither starts
  nor ends with whitespace.
\<close>

theorem normalise_invariant:
  "CR \<notin> set (normalise s)
   \<and> (\<forall>ps ss. normalise s \<noteq> ps @ [LF, LF, LF] @ ss)
   \<and> (\<forall>ps a b ss. normalise s = ps @ [a, b] @ ss \<longrightarrow> \<not> (hws a \<and> hws b))
   \<and> (normalise s = [] \<or> (\<not> isspace (hd (normalise s)) \<and> \<not> isspace (last (normalise s))))"
proof (intro conjI allI impI notI)
  show "CR \<in> set (normalise s) \<Longrightarrow> False" using normalise_no_CR by simp
next
  fix ps ss
  assume e: "normalise s = ps @ [LF, LF, LF] @ ss"
  have "norun (\<lambda>c. c = LF) 3 (ps @ [LF, LF, LF] @ ss)"
    using normalise_norun_LF[of s] unfolding e .
  from norun_no_sublist[OF this] show False by simp
next
  fix ps a b ss
  assume e: "normalise s = ps @ [a, b] @ ss" and h: "hws a \<and> hws b"
  have "norun hws 2 (ps @ [a, b] @ ss)"
    using normalise_norun_hws[of s] unfolding e .
  from norun_no_sublist[OF this] h show False by simp
next
  show "normalise s = [] \<or> (\<not> isspace (hd (normalise s)) \<and> \<not> isspace (last (normalise s)))"
    by (rule normalise_ends)
qed

theorem normalise_invariant_witness:
  "normalise [SP, 97, SP, SP, 9, 98, CR, LF, LF, LF, 99, SP] = [97] @ [SP, 98] @ [LF, LF, 99]
   \<and> \<not> (hws SP \<and> hws 98)
   \<and> CR \<notin> set (normalise [SP, 97, SP, SP, 9, 98, CR, LF, LF, LF, 99, SP])"
proof -
  let ?s = "[SP, 97, SP, SP, 9, 98, CR, LF, LF, LF, 99, SP]"
  have e: "normalise ?s = [97] @ [SP, 98] @ [LF, LF, 99]" by code_simp
  from normalise_invariant[of ?s] have
    1: "CR \<notin> set (normalise ?s)" and
    2: "\<forall>ps a b ss. normalise ?s = ps @ [a, b] @ ss \<longrightarrow> \<not> (hws a \<and> hws b)"
    by blast+
  from 2 e have "\<not> (hws SP \<and> hws 98)" by blast
  with e 1 show ?thesis by blast
qed

section \<open>The occurrence selector\<close>

lemma pick_loop_None:
  "pick_loop ps text n = None \<longleftrightarrow> (\<forall>p\<in>set ps. \<not> follows_blank text n p)"
  by (induction ps) (auto simp: follows_blank_def Let_def)

lemma pick_loop_Some:
  "pick_loop ps text n = Some p \<Longrightarrow>
     \<exists>i<length ps. ps ! i = p \<and> follows_blank text n p
        \<and> (\<forall>j<i. \<not> follows_blank text n (ps ! j))"
proof (induction ps)
  case Nil
  then show ?case by simp
next
  case (Cons a ps)
  show ?case
  proof (cases "follows_blank text n a")
    case True
    with Cons.prems have "p = a" by (simp add: follows_blank_def Let_def)
    with True have "(a # ps) ! 0 = p \<and> follows_blank text n p
        \<and> (\<forall>j<0. \<not> follows_blank text n ((a # ps) ! j))" by simp
    then show ?thesis by blast
  next
    case False
    with Cons.prems have "pick_loop ps text n = Some p"
      by (simp add: follows_blank_def Let_def)
    from Cons.IH[OF this] obtain i where i: "i < length ps" "ps ! i = p"
      "follows_blank text n p" "\<forall>j<i. \<not> follows_blank text n (ps ! j)" by blast
    have "\<forall>j<Suc i. \<not> follows_blank text n ((a # ps) ! j)"
    proof (intro allI impI)
      fix j assume "j < Suc i"
      then show "\<not> follows_blank text n ((a # ps) ! j)"
        using False i(4) by (cases j) auto
    qed
    with i have "Suc i < length (a # ps) \<and> (a # ps) ! Suc i = p \<and> follows_blank text n p
        \<and> (\<forall>j<Suc i. \<not> follows_blank text n ((a # ps) ! j))" by simp
    then show ?thesis by blast
  qed
qed

lemma pick_best_cases:
  assumes "positions \<noteq> []"
  shows "\<exists>p. pick_best_occurrence positions text n = Inr p \<and> p \<in> set positions \<and>
           ((\<exists>i<length positions. positions ! i = p \<and> follows_blank text n p
                \<and> (\<forall>j<i. \<not> follows_blank text n (positions ! j)))
            \<or> ((\<forall>q\<in>set positions. \<not> follows_blank text n q) \<and> p = hd positions))"
proof (cases "pick_loop positions text n")
  case None
  then have "\<forall>q\<in>set positions. \<not> follows_blank text n q" by (simp add: pick_loop_None)
  moreover have "pick_best_occurrence positions text n = Inr (hd positions)"
    using None assms by (cases positions) (simp_all add: pick_best_occurrence_def)
  ultimately show ?thesis using assms by simp
next
  case (Some p)
  from pick_loop_Some[OF Some] obtain i where i: "i < length positions" "positions ! i = p"
    "follows_blank text n p" "\<forall>j<i. \<not> follows_blank text n (positions ! j)" by blast
  have "pick_best_occurrence positions text n = Inr p"
    using Some by (simp add: pick_best_occurrence_def)
  moreover have "p \<in> set positions" using i(1,2) nth_mem by blast
  ultimately show ?thesis using i by blast
qed

lemma py_slice_nonneg:
  "py_slice xs (int e) (int e + 2) = take 2 (drop e xs)"
proof (cases "e \<le> length xs")
  case True
  then show ?thesis
    by (auto simp: py_slice_def py_clamp_def Let_def nat_add_distrib min_def)
next
  case False
  then show ?thesis by (auto simp: py_slice_def py_clamp_def Let_def)
qed

text \<open>
  Claim C1: on a non-empty list of positions the selector returns a position and never
  fails: the first position of the list whose match is followed by two newlines
  (the slice \<open>text[p+anchor_len : p+anchor_len+2]\<close>), and the first position of
  the list when no position qualifies.
\<close>

theorem pick_best_first_blank_line:
  "positions \<noteq> [] \<Longrightarrow>
     \<exists>p. pick_best_occurrence positions text anchor_len = Inr p \<and>
       ((\<exists>i<length positions. positions ! i = p
            \<and> py_slice text (p + anchor_len) (p + anchor_len + 2) = [LF, LF]
            \<and> (\<forall>j<i. py_slice text (positions ! j + anchor_len)
                         (positions ! j + anchor_len + 2) \<noteq> [LF, LF]))
        \<or> ((\<forall>q\<in>set positions. py_slice text (q + anchor_len) (q + anchor_len + 2) \<noteq> [LF, LF])
            \<and> p = positions ! 0))"
proof -
  assume ne: "positions \<noteq> []"
  from pick_best_cases[OF ne, of "text" anchor_len] obtain p where
    p: "pick_best_occurrence positions text anchor_len = Inr p" and
    c: "(\<exists>i<length positions. positions ! i = p \<and> follows_blank text anchor_len p
                \<and> (\<forall>j<i. \<not> follows_blank text anchor_len (positions ! j)))
        \<or> ((\<forall>q\<in>set positions. \<not> follows_blank text anchor_len q) \<and> p = hd positions)"
    by blast
  have "hd positions = positions ! 0" using ne by (simp add: hd_conv_nth)
  with p c show ?thesis unfolding follows_blank_def by auto
qed

theorem pick_best_first_blank_line_witness:
  "[0, 4, 8] \<noteq> ([] :: int list) \<and>
   pick_best_occurrence [0, 4, 8] [65, SP, 98, LF, 65, LF, LF, 99, 65, LF, LF] 1 = Inr 4 \<and>
   pick_best_occurrence [0, 4] [65, SP, 98, LF, 65, LF, 99] 1 = Inr 0"
proof -
  have ne: "[0, 4, 8] \<noteq> ([] :: int list)" by simp
  from pick_best_first_blank_line[OF ne, of "[65, SP, 98, LF, 65, LF, LF, 99, 65, LF, LF]" 1]
  obtain p where "pick_best_occurrence [0, 4, 8] [65, SP, 98, LF, 65, LF, LF, 99, 65, LF, LF] 1 = Inr p"
    by blast
  moreover have "pick_best_occurrence [0, 4, 8] [65, SP, 98, LF, 65, LF, LF, 99, 65, LF, LF] 1 = Inr 4"
    by code_simp
  moreover have "pick_best_occurrence [0, 4] [65, SP, 98, LF, 65, LF, 99] 1 = Inr 0"
    by code_simp
  ultimately show ?thesis using ne by simp
qed

section \<open>The position mapper\<close>

lemma skip_ws_ok:
  "filter nonws (drop i orig) = c # F \<Longrightarrow>
     \<exists>j. skip_ws orig i = Inr j \<and> i \<le> j \<and> j < length orig \<and> orig ! j = c
        \<and> filter nonws (take j orig) = filter nonws (take i orig)
        \<and> filter nonws (drop (Suc j) orig) = F"
proof (induction orig i rule: skip_ws.induct)
  case (1 orig i)
  have lt: "i < length orig"
  proof (rule ccontr)
    assume "\<not> i < length orig"
    then have "drop i orig = []" by simp
    with 1(2) show False by simp
  qed
  then have d: "drop i orig = orig ! i # drop (Suc i) orig"
    by (simp add: Cons_nth_drop_Suc)
  show ?case
  proof (cases "isspace (orig ! i)")
    case True
    with 1(2) d have "filter nonws (drop (i + 1) orig) = c # F" by simp
    from 1(1)[OF _ True this] lt obtain j where
      j: "skip_ws orig (i + 1) = Inr j" "i + 1 \<le> j" "j < length orig" "orig ! j = c"
         "filter nonws (take j orig) = filter nonws (take (i + 1) orig)"
         "filter nonws (drop (Suc j) orig) = F" by auto
    have "filter nonws (take (i + 1) orig) = filter nonws (take i orig)"
      using lt True by (simp add: take_Suc_conv_app_nth)
    moreover have "skip_ws orig i = Inr j"
      using lt True j(1) by (simp add: skip_ws.simps[of orig i])
    ultimately show ?thesis using j by auto
  next
    case False
    with 1(2) d have "orig ! i = c" "filter nonws (drop (Suc i) orig) = F" by simp_all
    moreover have "skip_ws orig i = Inr i"
      using lt False by (simp add: skip_ws.simps[of orig i])
    ultimately show ?thesis using lt by auto
  qed
qed

text \<open>
  What the map holds for the key of a non-whitespace character: its value \<open>j\<close> lies in
  the original behind the cursor, carries the same character, and has the same
  non-whitespace characters before it.
\<close>

lemma map_loop_ok:
  "filter nonws (drop i orig) = filter nonws ns \<Longrightarrow>
     \<exists>m. map_loop orig (enumerate n ns) i cm = Inr m \<and>
       (\<forall>k<length ns. nonws (ns ! k) \<longrightarrow>
          (\<exists>j. m (int (n + k)) = Some j \<and> i \<le> j \<and> j < length orig \<and> orig ! j = ns ! k
             \<and> filter nonws (take j orig)
                 = filter nonws (take i orig) @ filter nonws (take k ns))) \<and>
       (\<forall>key. (\<forall>k<length ns. key = int (n + k) \<longrightarrow> isspace (ns ! k)) \<longrightarrow> m key = cm key)"
proof (induction ns arbitrary: n i cm)
  case Nil
  show ?case by simp
next
  case (Cons c cs)
  show ?case
  proof (cases "isspace c")
    case True
    with Cons.prems have par: "filter nonws (drop i orig) = filter nonws cs" by simp
    from Cons.IH[OF par, of "Suc n" cm] obtain m where
      m: "map_loop orig (enumerate (Suc n) cs) i cm = Inr m"
      and e: "\<forall>k<length cs. nonws (cs ! k) \<longrightarrow>
          (\<exists>j. m (int (Suc n + k)) = Some j \<and> i \<le> j \<and> j < length orig \<and> orig ! j = cs ! k
             \<and> filter nonws (take j orig)
                 = filter nonws (take i orig) @ filter nonws (take k cs))"
      and o: "\<forall>key. (\<forall>k<length cs. key = int (Suc n + k) \<longrightarrow> isspace (cs ! k)) \<longrightarrow> m key = cm key"
      by blast
    have 1: "map_loop orig (enumerate n (c # cs)) i cm = Inr m" using True m by simp
    have 2: "\<forall>k<length (c # cs). nonws ((c # cs) ! k) \<longrightarrow>
          (\<exists>j. m (int (n + k)) = Some j \<and> i \<le> j \<and> j < length orig \<and> orig ! j = (c # cs) ! k
             \<and> filter nonws (take j orig)
                 = filter nonws (take i orig) @ filter nonws (take k (c # cs)))"
    proof (intro allI impI)
      fix k assume k: "k < length (c # cs)" and nw: "nonws ((c # cs) ! k)"
      with True obtain k' where k': "k = Suc k'" by (cases k) auto
      with k nw have "k' < length cs" "nonws (cs ! k')" by simp_all
      with e obtain j where "m (int (Suc n + k')) = Some j" "i \<le> j" "j < length orig"
        "orig ! j = cs ! k'"
        "filter nonws (take j orig) = filter nonws (take i orig) @ filter nonws (take k' cs)"
        by blast
      with k' True show "\<exists>j. m (int (n + k)) = Some j \<and> i \<le> j \<and> j < length orig
             \<and> orig ! j = (c # cs) ! k
             \<and> filter nonws (take j orig)
                 = filter nonws (take i orig) @ filter nonws (take k (c # cs))"
        by simp
    qed
    have 3: "\<forall>key. (\<forall>k<length (c # cs). key = int (n + k) \<longrightarrow> isspace ((c # cs) ! k))
                \<longrightarrow> m key = cm key"
    proof (intro allI impI)
      fix key assume a: "\<forall>k<length (c # cs). key = int (n + k) \<longrightarrow> isspace ((c # cs) ! k)"
      have "\<forall>k<length cs. key = int (Suc n + k) \<longrightarrow> isspace (cs ! k)"
      proof (intro allI impI)
        fix k assume "k < length cs" "key = int (Suc n + k)"
        with a[rule_format, of "Suc k"] show "isspace (cs ! k)" by simp
      qed
      with o show "m key = cm key" by blast
    qed
    from 1 2 3 show ?thesis by blast
  next
    case False
    with Cons.prems have "filter nonws (drop i orig) = c # filter nonws cs" by simp
    from skip_ws_ok[OF this] obtain j0 where
      j0: "skip_ws orig i = Inr j0" "i \<le> j0" "j0 < length orig" "orig ! j0 = c"
          "filter nonws (take j0 orig) = filter nonws (take i orig)"
          "filter nonws (drop (Suc j0) orig) = filter nonws cs" by blast
    let ?cm = "cm(int n \<mapsto> j0)"
    from Cons.IH[OF j0(6), of "Suc n" ?cm] obtain m where
      m: "map_loop orig (enumerate (Suc n) cs) (Suc j0) ?cm = Inr m"
      and e: "\<forall>k<length cs. nonws (cs ! k) \<longrightarrow>
          (\<exists>j. m (int (Suc n + k)) = Some j \<and> Suc j0 \<le> j \<and> j < length orig \<and> orig ! j = cs ! k
             \<and> filter nonws (take j orig)
                 = filter nonws (take (Suc j0) orig) @ filter nonws (take k cs))"
      and o: "\<forall>key. (\<forall>k<length cs. key = int (Suc n + k) \<longrightarrow> isspace (cs ! k)) \<longrightarrow> m key = ?cm key"
      by blast
    have t: "filter nonws (take (Suc j0) orig) = filter nonws (take i orig) @ [c]"
      using j0(3,4,5) False by (simp add: take_Suc_conv_app_nth)
    have 1: "map_loop orig (enumerate n (c # cs)) i cm = Inr m" using False j0(1) m by simp
    have 2: "\<forall>k<length (c # cs). nonws ((c # cs) ! k) \<longrightarrow>
          (\<exists>j. m (int (n + k)) = Some j \<and> i \<le> j \<and> j < length orig \<and> orig ! j = (c # cs) ! k
             \<and> filter nonws (take j orig)
                 = filter nonws (take i orig) @ filter nonws (take k (c # cs)))"
    proof (intro allI impI)
      fix k assume k: "k < length (c # cs)" and nw: "nonws ((c # cs) ! k)"
      show "\<exists>j. m (int (n + k)) = Some j \<and> i \<le> j \<and> j < length orig
             \<and> orig ! j = (c # cs) ! k
             \<and> filter nonws (take j orig)
                 = filter nonws (take i orig) @ filter nonws (take k (c # cs))"
      proof (cases k)
        case 0
        have "\<forall>k'<length cs. int n = int (Suc n + k') \<longrightarrow> isspace (cs ! k')" by simp
        with o have "m (int n) = ?cm (int n)" by blast
        then have "m (int (n + k)) = Some j0" using 0 by simp
        with j0 0 show ?thesis by simp
      next
        case (Suc k')
        with k nw have "k' < length cs" "nonws (cs ! k')" by simp_all
        with e obtain j where j: "m (int (Suc n + k')) = Some j" "Suc j0 \<le> j" "j < length orig"
          "orig ! j = cs ! k'"
          "filter nonws (take j orig)
             = filter nonws (take (Suc j0) orig) @ filter nonws (take k' cs)"
          by blast
        have "i \<le> j" using j(2) j0(2) by simp
        with j t Suc False show ?thesis by simp
      qed
    qed
    have 3: "\<forall>key. (\<forall>k<length (c # cs). key = int (n + k) \<longrightarrow> isspace ((c # cs) ! k))
                \<longrightarrow> m key = cm key"
    proof (intro allI impI)
      fix key assume a: "\<forall>k<length (c # cs). key = int (n + k) \<longrightarrow> isspace ((c # cs) ! k)"
      have "\<forall>k<length cs. key = int (Suc n + k) \<longrightarrow> isspace (cs ! k)"
      proof (intro allI impI)
        fix k assume "k < length cs" "key = int (Suc n + k)"
        with a[rule_format, of "Suc k"] show "isspace (cs ! k)" by simp
      qed
      with o have "m key = ?cm key" by blast
      moreover have "key \<noteq> int n" using a[rule_format, of 0] False by auto
      ultimately show "m key = cm key" by simp
    qed
    from 1 2 3 show ?thesis by blast
  qed
qed

lemma map_norm_to_orig_ok:
  assumes "ws_parity orig norm"
  shows "\<exists>m. map_norm_to_orig orig norm = Inr m \<and> map_ok orig norm m"
proof -
  have "filter nonws (drop 0 orig) = filter nonws norm"
    using assms by (simp add: ws_parity_def)
  from map_loop_ok[OF this, of 0 Map.empty] show ?thesis
    unfolding map_norm_to_orig_def map_ok_def by simp
qed

lemma map_ok_SomeI:
  "map_ok orig norm m \<Longrightarrow> k < length norm \<Longrightarrow> \<not> isspace (norm ! k) \<Longrightarrow>
     \<exists>j. m (int k) = Some j \<and> j < length orig \<and> orig ! j = norm ! k
        \<and> filter nonws (take j orig) = filter nonws (take k norm)"
  unfolding map_ok_def by blast

lemma map_ok_NoneI:
  "map_ok orig norm m \<Longrightarrow> \<forall>k<length norm. key = int k \<longrightarrow> isspace (norm ! k) \<Longrightarrow> m key = None"
  unfolding map_ok_def by blast

lemma map_ok_SomeD:
  assumes ok: "map_ok orig norm m" and s: "m key = Some j"
  shows "\<exists>k. key = int k \<and> k < length norm \<and> \<not> isspace (norm ! k) \<and> j < length orig
           \<and> orig ! j = norm ! k
           \<and> filter nonws (take j orig) = filter nonws (take k norm)"
proof -
  have "\<not> (\<forall>k<length norm. key = int k \<longrightarrow> isspace (norm ! k))"
    using map_ok_NoneI[OF ok, of key] s by auto
  then obtain k where k: "k < length norm" "key = int k" "\<not> isspace (norm ! k)" by blast
  from map_ok_SomeI[OF ok k(1,3)] s k(2) have "j < length orig \<and> orig ! j = norm ! k
        \<and> filter nonws (take j orig) = filter nonws (take k norm)" by auto
  with k show ?thesis by blast
qed

lemma count_take_mono:
  "a \<le> b \<Longrightarrow> length (filter P (take a xs)) \<le> length (filter P (take b xs))"
proof -
  assume "a \<le> b"
  then have "take b xs = take a xs @ take (b - a) (drop a xs)"
    by (metis take_add le_add_diff_inverse)
  then show ?thesis by simp
qed

lemma count_take_strict:
  assumes "k < k'" and "k < length xs" and "P (xs ! k)"
  shows "length (filter P (take k xs)) < length (filter P (take k' xs))"
proof -
  have "take (Suc k) xs = take k xs @ [xs ! k]"
    using assms(2) by (simp add: take_Suc_conv_app_nth)
  then have "length (filter P (take (Suc k) xs)) = Suc (length (filter P (take k xs)))"
    using assms(3) by simp
  moreover have "length (filter P (take (Suc k) xs)) \<le> length (filter P (take k' xs))"
    using assms(1) by (intro count_take_mono) simp
  ultimately show ?thesis by simp
qed

lemma map_ok_mono:
  assumes ok: "map_ok orig norm m" and a: "m a = Some j" and b: "m b = Some j'" and lt: "a < b"
  shows "j < j'"
proof -
  from map_ok_SomeD[OF ok a] obtain k where k: "a = int k" "k < length norm"
    "\<not> isspace (norm ! k)" "filter nonws (take j orig) = filter nonws (take k norm)" by blast
  from map_ok_SomeD[OF ok b] obtain k' where k': "b = int k'"
    "filter nonws (take j' orig) = filter nonws (take k' norm)" by blast
  have "k < k'" using lt k(1) k'(1) by simp
  from count_take_strict[OF this k(2), of nonws] k(3)
  have "length (filter nonws (take k norm)) < length (filter nonws (take k' norm))" by simp
  then have c: "length (filter nonws (take j orig)) < length (filter nonws (take j' orig))"
    using k(4) k'(2) by simp
  show ?thesis
  proof (rule ccontr)
    assume "\<not> j < j'"
    then have "j' \<le> j" by simp
    from count_take_mono[OF this, of nonws orig] c show False by simp
  qed
qed

section \<open>Properties of the position mapper\<close>

text \<open>
  Claim C4: under the whitespace-parity precondition the mapper returns a map whose
  keys are exactly the indices of the non-whitespace characters of the normalised
  string, whose values increase strictly with the key, and each value is the index of
  a non-whitespace character of the original equal to the normalised character at the key.
\<close>

theorem map_norm_to_orig_correct:
  "ws_parity original normalised \<Longrightarrow>
     \<exists>m. map_norm_to_orig original normalised = Inr m
       \<and> dom m = {int k |k. k < length normalised \<and> \<not> isspace (normalised ! k)}
       \<and> (\<forall>a b j j'. m a = Some j \<and> m b = Some j' \<and> a < b \<longrightarrow> j < j')
       \<and> (\<forall>k j. m (int k) = Some j \<longrightarrow>
             j < length original \<and> \<not> isspace (original ! j)
             \<and> original ! j = normalised ! k)"
proof -
  assume par: "ws_parity original normalised"
  from map_norm_to_orig_ok[OF par] obtain m where
    m: "map_norm_to_orig original normalised = Inr m" and ok: "map_ok original normalised m"
    by blast
  have d: "dom m = {int k |k. k < length normalised \<and> \<not> isspace (normalised ! k)}"
  proof (intro set_eqI iffI)
    fix key assume "key \<in> dom m"
    then obtain j where "m key = Some j" by blast
    from map_ok_SomeD[OF ok this]
    show "key \<in> {int k |k. k < length normalised \<and> \<not> isspace (normalised ! k)}" by blast
  next
    fix key assume "key \<in> {int k |k. k < length normalised \<and> \<not> isspace (normalised ! k)}"
    then obtain k where "key = int k" "k < length normalised" "\<not> isspace (normalised ! k)"
      by blast
    with map_ok_SomeI[OF ok] show "key \<in> dom m" by blast
  qed
  have mono: "\<forall>a b j j'. m a = Some j \<and> m b = Some j' \<and> a < b \<longrightarrow> j < j'"
    using map_ok_mono[OF ok] by blast
  have v: "\<forall>k j. m (int k) = Some j \<longrightarrow>
             j < length original \<and> \<not> isspace (original ! j) \<and> original ! j = normalised ! k"
  proof (intro allI impI)
    fix k j assume "m (int k) = Some j"
    from map_ok_SomeD[OF ok this]
    show "j < length original \<and> \<not> isspace (original ! j) \<and> original ! j = normalised ! k"
      by auto
  qed
  from m d mono v show ?thesis by blast
qed

theorem map_norm_to_orig_correct_witness:
  "ws_parity [SP, 97, CR, LF, SP, SP, 98] [97, LF, 98]
   \<and> (\<exists>m. map_norm_to_orig [SP, 97, CR, LF, SP, SP, 98] [97, LF, 98] = Inr m
          \<and> m 0 = Some 1 \<and> m 1 = None \<and> m 2 = Some 6
          \<and> dom m = {int k |k. k < length [97, LF, 98 :: nat] \<and> \<not> isspace ([97, LF, 98] ! k)})"
proof -
  let ?o = "[SP, 97, CR, LF, SP, SP, 98]" and ?n = "[97, LF, 98 :: nat]"
  have par: "ws_parity ?o ?n" by code_simp
  from map_norm_to_orig_correct[OF par] obtain m where
    m: "map_norm_to_orig ?o ?n = Inr m"
    and d: "dom m = {int k |k. k < length ?n \<and> \<not> isspace (?n ! k)}" by blast
  have "(case map_norm_to_orig ?o ?n of Inl e \<Rightarrow> [] | Inr m \<Rightarrow> [m 0, m 1, m 2])
      = [Some 1, None, Some 6]" by code_simp
  with m have "m 0 = Some 1 \<and> m 1 = None \<and> m 2 = Some 6" by simp
  with par m d show ?thesis by blast
qed

text \<open>
  Claim C5: under the whitespace-parity precondition the cursor over the original never
  leaves it, so the mapper returns a map and raises no \<open>IndexError\<close>; this holds in
  particular for a text and its own normalisation.
\<close>

theorem map_norm_to_orig_no_fault:
  "(ws_parity original normalised \<longrightarrow> (\<exists>m. map_norm_to_orig original normalised = Inr m))
   \<and> (\<exists>m. map_norm_to_orig text (normalise text) = Inr m)"
proof
  show "ws_parity original normalised \<longrightarrow> (\<exists>m. map_norm_to_orig original normalised = Inr m)"
    using map_norm_to_orig_ok by blast
  have "ws_parity text (normalise text)"
    by (simp add: ws_parity_def normalise_filter)
  from map_norm_to_orig_ok[OF this]
  show "\<exists>m. map_norm_to_orig text (normalise text) = Inr m" by blast
qed

theorem map_norm_to_orig_no_fault_witness:
  "ws_parity [SP, 97, CR, LF, SP, SP, 98] [97, LF, 98]
   \<and> (\<exists>m. map_norm_to_orig [SP, 97, CR, LF, SP, SP, 98] [97, LF, 98] = Inr m)
   \<and> map_norm_to_orig [97] [97, 98] = Inl IndexError"
proof -
  have par: "ws_parity [SP, 97, CR, LF, SP, SP, 98] [97, LF, 98]" by code_simp
  have "case map_norm_to_orig [97] [97, 98] of Inl e \<Rightarrow> True | Inr m \<Rightarrow> False"
    by code_simp
  then have f: "map_norm_to_orig [97] [97, 98] = Inl IndexError"
    by (cases "map_norm_to_orig [97] [97, 98]") (auto intro: py_error.exhaust)
  from map_norm_to_orig_no_fault[of "[SP, 97, CR, LF, SP, SP, 98]" "[97, LF, 98]" "[]"] par
  have "\<exists>m. map_norm_to_orig [SP, 97, CR, LF, SP, SP, 98] [97, LF, 98] = Inr m" by blast
  with par f show ?thesis by blast
qed

section \<open>Searching\<close>

lemma finditer_from_sound:
  "q \<in> set (finditer_from pat tx i) \<Longrightarrow> i \<le> q \<and> occurs_at pat tx q"
proof (induction pat tx i rule: finditer_from.induct)
  case (1 pat tx i)
  show ?case
  proof (cases "length tx < i")
    case True
    with 1(3) show ?thesis by (simp add: finditer_from.simps[of pat tx i])
  next
    case False
    show ?thesis
    proof (cases "take (length pat) (drop i tx) = pat")
      case True
      with False 1(3) have "q = i \<or> q \<in> set (finditer_from pat tx (i + max 1 (length pat)))"
        by (simp add: finditer_from.simps[of pat tx i])
      then show ?thesis
      proof
        assume "q = i"
        with True False show ?thesis by (simp add: occurs_at_def)
      next
        assume "q \<in> set (finditer_from pat tx (i + max 1 (length pat)))"
        from 1(1)[OF False True this] show ?thesis by simp
      qed
    next
      case nomatch: False
      with False 1(3) have "q \<in> set (finditer_from pat tx (Suc i))"
        by (simp add: finditer_from.simps[of pat tx i])
      from 1(2)[OF False nomatch this] show ?thesis by simp
    qed
  qed
qed

lemma finditer_from_nonempty:
  "occurs_at pat tx p \<Longrightarrow> i \<le> p \<Longrightarrow> finditer_from pat tx i \<noteq> []"
proof (induction pat tx i rule: finditer_from.induct)
  case (1 pat tx i)
  from 1(3,4) have le: "\<not> length tx < i" by (simp add: occurs_at_def)
  show ?case
  proof (cases "take (length pat) (drop i tx) = pat")
    case True
    with le show ?thesis by (simp add: finditer_from.simps[of pat tx i])
  next
    case False
    with 1(3) have "i \<noteq> p" by (auto simp: occurs_at_def)
    with 1(4) have "Suc i \<le> p" by simp
    from 1(2)[OF le False 1(3) this] le False show ?thesis
      by (simp add: finditer_from.simps[of pat tx i])
  qed
qed

lemma finditer_from_hit:
  "occurs_at pat tx i \<Longrightarrow>
     finditer_from pat tx i = i # finditer_from pat tx (i + max 1 (length pat))"
  by (simp add: finditer_from.simps[of pat tx i] occurs_at_def)

lemma py_finditer_sound:
  "q \<in> set (py_finditer pat tx) \<Longrightarrow> \<exists>p. q = int p \<and> occurs_at pat tx p"
  unfolding py_finditer_def using finditer_from_sound by auto

lemma py_finditer_empty:
  "py_finditer pat tx = [] \<longleftrightarrow> (\<forall>p. \<not> occurs_at pat tx p)"
proof
  assume e: "py_finditer pat tx = []"
  show "\<forall>p. \<not> occurs_at pat tx p"
  proof (intro allI notI)
    fix p assume "occurs_at pat tx p"
    from finditer_from_nonempty[OF this, of 0] e show False by (simp add: py_finditer_def)
  qed
next
  assume a: "\<forall>p. \<not> occurs_at pat tx p"
  show "py_finditer pat tx = []"
  proof (rule ccontr)
    assume "py_finditer pat tx \<noteq> []"
    then obtain q where "q \<in> set (py_finditer pat tx)" by (cases "py_finditer pat tx") auto
    from py_finditer_sound[OF this] a show False by blast
  qed
qed

lemma rfind_from_char:
  "(rfind_from pat tx i = - 1 \<and> (\<forall>p\<le>i. take (length pat) (drop p tx) \<noteq> pat))
   \<or> (\<exists>p\<le>i. rfind_from pat tx i = int p \<and> take (length pat) (drop p tx) = pat
         \<and> (\<forall>q. p < q \<and> q \<le> i \<longrightarrow> take (length pat) (drop q tx) \<noteq> pat))"
proof (induction i)
  case 0
  show ?case by (cases "take (length pat) tx = pat") auto
next
  case (Suc i)
  show ?case
  proof (cases "take (length pat) (drop (Suc i) tx) = pat")
    case True
    then have "rfind_from pat tx (Suc i) = int (Suc i)" by simp
    with True show ?thesis by auto
  next
    case False
    then have eq: "rfind_from pat tx (Suc i) = rfind_from pat tx i" by simp
    from Suc.IH show ?thesis
    proof
      assume "rfind_from pat tx i = - 1 \<and> (\<forall>p\<le>i. take (length pat) (drop p tx) \<noteq> pat)"
      with False eq have "rfind_from pat tx (Suc i) = - 1
          \<and> (\<forall>p\<le>Suc i. take (length pat) (drop p tx) \<noteq> pat)"
        by (auto simp: le_Suc_eq)
      then show ?thesis by blast
    next
      assume "\<exists>p\<le>i. rfind_from pat tx i = int p \<and> take (length pat) (drop p tx) = pat
         \<and> (\<forall>q. p < q \<and> q \<le> i \<longrightarrow> take (length pat) (drop q tx) \<noteq> pat)"
      then obtain p where p: "p \<le> i" "rfind_from pat tx i = int p"
        "take (length pat) (drop p tx) = pat"
        "\<forall>q. p < q \<and> q \<le> i \<longrightarrow> take (length pat) (drop q tx) \<noteq> pat" by blast
      have "\<forall>q. p < q \<and> q \<le> Suc i \<longrightarrow> take (length pat) (drop q tx) \<noteq> pat"
        using p(4) False by (auto simp: le_Suc_eq)
      with p eq have "p \<le> Suc i \<and> rfind_from pat tx (Suc i) = int p
        \<and> take (length pat) (drop p tx) = pat
        \<and> (\<forall>q. p < q \<and> q \<le> Suc i \<longrightarrow> take (length pat) (drop q tx) \<noteq> pat)" by simp
      then show ?thesis by blast
    qed
  qed
qed

lemma py_rfind_none: "\<forall>p. \<not> occurs_at pat tx p \<Longrightarrow> py_rfind tx pat = - 1"
  using rfind_from_char[of pat tx "length tx"]
  unfolding py_rfind_def occurs_at_def by auto

lemma py_rfind_last:
  assumes "occurs_at pat tx p" and "\<forall>q. occurs_at pat tx q \<longrightarrow> q \<le> p"
  shows "py_rfind tx pat = int p"
proof -
  from rfind_from_char[of pat tx "length tx"] assms(1)
  obtain p' where p': "p' \<le> length tx" "rfind_from pat tx (length tx) = int p'"
    "take (length pat) (drop p' tx) = pat"
    "\<forall>q. p' < q \<and> q \<le> length tx \<longrightarrow> take (length pat) (drop q tx) \<noteq> pat"
    unfolding occurs_at_def by blast
  have "occurs_at pat tx p'" using p'(1,3) by (simp add: occurs_at_def)
  with assms(2) have "p' \<le> p" by blast
  moreover have "\<not> p' < p" using p'(4) assms(1) unfolding occurs_at_def by blast
  ultimately show ?thesis using p'(2) by (simp add: py_rfind_def)
qed

lemma py_rfind_found:
  "py_rfind tx pat \<noteq> - 1 \<Longrightarrow>
     \<exists>p. py_rfind tx pat = int p \<and> occurs_at pat tx p \<and> (\<forall>q. occurs_at pat tx q \<longrightarrow> q \<le> p)"
proof -
  assume "py_rfind tx pat \<noteq> - 1"
  with rfind_from_char[of pat tx "length tx"]
  obtain p where p: "p \<le> length tx" "rfind_from pat tx (length tx) = int p"
    "take (length pat) (drop p tx) = pat"
    "\<forall>q. p < q \<and> q \<le> length tx \<longrightarrow> take (length pat) (drop q tx) \<noteq> pat"
    unfolding py_rfind_def by auto
  have "\<forall>q. occurs_at pat tx q \<longrightarrow> q \<le> p"
    using p(4) unfolding occurs_at_def by (meson not_le_imp_less)
  with p show ?thesis by (auto simp: py_rfind_def occurs_at_def)
qed

lemma occurs_at_nonempty:
  assumes "occurs_at pat tx p" and "pat \<noteq> []"
  shows "p < length tx \<and> tx ! p = hd pat"
proof -
  from assms have t: "take (length pat) (drop p tx) = pat" by (simp add: occurs_at_def)
  have ne: "drop p tx \<noteq> []"
  proof
    assume "drop p tx = []"
    with t assms(2) show False by simp
  qed
  then have lt: "p < length tx" by simp
  have "hd pat = hd (take (length pat) (drop p tx))" using t by simp
  also have "\<dots> = hd (drop p tx)" using assms(2) ne by (cases "drop p tx"; cases pat) auto
  also have "\<dots> = tx ! p" using lt by (simp add: hd_drop_conv_nth)
  finally show ?thesis using lt by simp
qed

section \<open>The anchor locator\<close>

lemma char_map_exists:
  "\<exists>m. map_norm_to_orig tx (normalise tx) = Inr m \<and> map_ok tx (normalise tx) m"
  by (rule map_norm_to_orig_ok) (simp add: ws_parity_def normalise_filter)

lemma locate_anchor_unfold:
  "map_norm_to_orig tx (normalise tx) = Inr m \<Longrightarrow>
     locate_anchor tx marker is_start =
       (case strategy1 marker (normalise tx) (normalise marker) m is_start of
          Inl e \<Rightarrow> Inl e
        | Inr None \<Rightarrow> strategy2 marker (normalise tx) m is_start
        | Inr (Some r) \<Rightarrow> Inr r)"
  by (simp add: locate_anchor_def Let_def split: sum.splits option.splits)

lemma strategy1_start:
  assumes "py_finditer nm nt \<noteq> []"
  shows "\<exists>p. pick_best_occurrence (py_finditer nm nt) nt (int (length nm)) = Inr p
           \<and> p \<in> set (py_finditer nm nt)
           \<and> strategy1 marker nt nm m True =
               (case m p of None \<Rightarrow> Inr None
                | Some v \<Rightarrow> Inr (Some (int v, int (length marker))))"
proof -
  from pick_best_cases[OF assms, of nt "int (length nm)"] obtain p where
    p: "pick_best_occurrence (py_finditer nm nt) nt (int (length nm)) = Inr p"
       "p \<in> set (py_finditer nm nt)" by blast
  have "strategy1 marker nt nm m True =
               (case m p of None \<Rightarrow> Inr None
                | Some v \<Rightarrow> Inr (Some (int v, int (length marker))))"
    using assms p(1) by (simp add: strategy1_def Let_def split: option.splits)
  with p show ?thesis by blast
qed

lemma strategy1_start_none:
  "py_finditer nm nt = [] \<Longrightarrow> strategy1 marker nt nm m True = Inr None"
  by (simp add: strategy1_def)

lemma strategy1_end:
  "strategy1 marker nt nm m False =
     (if py_rfind nt nm \<noteq> - 1
      then (case m (py_rfind nt nm) of None \<Rightarrow> Inr None
            | Some v \<Rightarrow> Inr (Some (int v, int (length marker))))
      else Inr None)"
  by (simp add: strategy1_def Let_def split: option.splits)

lemma strategy1_cases:
  "strategy1 marker nt nm m is_start = Inr None
   \<or> (\<exists>key v. m key = Some v
         \<and> strategy1 marker nt nm m is_start = Inr (Some (int v, int (length marker))))"
proof (cases is_start)
  case True
  show ?thesis
  proof (cases "py_finditer nm nt = []")
    case e: True
    with True show ?thesis by (simp add: strategy1_start_none)
  next
    case False
    from strategy1_start[OF False, of marker m] obtain p where
      "strategy1 marker nt nm m True =
               (case m p of None \<Rightarrow> Inr None
                | Some v \<Rightarrow> Inr (Some (int v, int (length marker))))" by blast
    with True show ?thesis by (cases "m p") auto
  qed
next
  case False
  then show ?thesis
    by (cases "m (py_rfind nt nm)") (auto simp: strategy1_end)
qed

text \<open>The lines Strategy 2 keeps, and the one it searches for.\<close>

lemma strategy2_no_lines:
  "filter (\<lambda>line. py_strip line \<noteq> []) (py_split_nl marker) = [] \<Longrightarrow>
     strategy2 marker nt m is_start = Inr (- 1, 0)"
  by (simp add: strategy2_def)

lemma strategy2_absent:
  "py_finditer (normalise (if is_start
        then hd (filter (\<lambda>line. py_strip line \<noteq> []) (py_split_nl marker))
        else last (filter (\<lambda>line. py_strip line \<noteq> []) (py_split_nl marker)))) nt = [] \<Longrightarrow>
     strategy2 marker nt m is_start = Inr (- 1, 0)"
  by (simp add: strategy2_def Let_def)

lemma strategy2_found:
  assumes l: "filter (\<lambda>line. py_strip line \<noteq> []) (py_split_nl marker) = lines"
    and ne: "lines \<noteq> []"
    and lm: "lm = normalise (if is_start then hd lines else last lines)"
    and ps: "py_finditer lm nt \<noteq> []"
  shows "\<exists>p. p \<in> set (py_finditer lm nt)
           \<and> (if is_start then pick_best_occurrence (py_finditer lm nt) nt (int (length lm)) = Inr p
               else p = last (py_finditer lm nt))
           \<and> strategy2 marker nt m is_start =
               (case m p of None \<Rightarrow> Inr (- 1, 0) | Some v \<Rightarrow> Inr (int v, int (length lm)))"
proof (cases is_start)
  case True
  from pick_best_cases[OF ps, of nt "int (length lm)"] obtain p where
    p: "pick_best_occurrence (py_finditer lm nt) nt (int (length lm)) = Inr p"
       "p \<in> set (py_finditer lm nt)" by blast
  have "strategy2 marker nt m is_start =
               (case m p of None \<Rightarrow> Inr (- 1, 0) | Some v \<Rightarrow> Inr (int v, int (length lm)))"
    using True l ne lm ps p(1) by (simp add: strategy2_def Let_def split: option.splits)
  with p True show ?thesis by auto
next
  case False
  have "strategy2 marker nt m is_start =
               (case m (last (py_finditer lm nt)) of None \<Rightarrow> Inr (- 1, 0)
                | Some v \<Rightarrow> Inr (int v, int (length lm)))"
    using False l ne lm ps by (simp add: strategy2_def Let_def split: option.splits)
  moreover have "last (py_finditer lm nt) \<in> set (py_finditer lm nt)" using ps by simp
  ultimately show ?thesis using False by auto
qed

lemma strategy2_cases:
  "strategy2 marker nt m is_start = Inr (- 1, 0)
   \<or> (\<exists>key v l. m key = Some v \<and> strategy2 marker nt m is_start = Inr (int v, l))"
proof -
  let ?lines = "filter (\<lambda>line. py_strip line \<noteq> []) (py_split_nl marker)"
  let ?lm = "normalise (if is_start then hd ?lines else last ?lines)"
  show ?thesis
  proof (cases "?lines = []")
    case True
    then show ?thesis by (simp add: strategy2_no_lines)
  next
    case ne: False
    show ?thesis
    proof (cases "py_finditer ?lm nt = []")
      case True
      then show ?thesis by (simp add: strategy2_absent)
    next
      case False
      from strategy2_found[OF refl ne refl False, of m] obtain p where
        "strategy2 marker nt m is_start =
           (case m p of None \<Rightarrow> Inr (- 1, 0) | Some v \<Rightarrow> Inr (int v, int (length ?lm)))"
        by blast
      then show ?thesis by (cases "m p") auto
    qed
  qed
qed

lemma locate_anchor_cases:
  assumes "map_norm_to_orig tx (normalise tx) = Inr m"
  shows "locate_anchor tx marker is_start = Inr (- 1, 0)
   \<or> (\<exists>key v l. m key = Some v \<and> locate_anchor tx marker is_start = Inr (int v, l))"
proof -
  from strategy1_cases[of marker "normalise tx" "normalise marker" m is_start] show ?thesis
  proof
    assume "strategy1 marker (normalise tx) (normalise marker) m is_start = Inr None"
    then have "locate_anchor tx marker is_start = strategy2 marker (normalise tx) m is_start"
      by (simp add: locate_anchor_unfold[OF assms])
    with strategy2_cases[of marker "normalise tx" m is_start] show ?thesis by simp
  next
    assume "\<exists>key v. m key = Some v
         \<and> strategy1 marker (normalise tx) (normalise marker) m is_start
             = Inr (Some (int v, int (length marker)))"
    then obtain key v where "m key = Some v"
      "strategy1 marker (normalise tx) (normalise marker) m is_start
             = Inr (Some (int v, int (length marker)))" by blast
    then have "m key = Some v
       \<and> locate_anchor tx marker is_start = Inr (int v, int (length marker))"
      by (simp add: locate_anchor_unfold[OF assms])
    then show ?thesis by blast
  qed
qed

text \<open>
  Claim C10: the locator always returns a pair, and an offset other than \<open>-1\<close> is the
  index of a non-whitespace character of the original text.
\<close>

theorem locate_anchor_offset_in_bounds:
  "(\<exists>r. locate_anchor tx marker is_start = Inr r)
   \<and> (\<forall>off len. locate_anchor tx marker is_start = Inr (off, len) \<and> off \<noteq> - 1 \<longrightarrow>
         0 \<le> off \<and> off < int (length tx) \<and> \<not> isspace (tx ! nat off))"
proof -
  from char_map_exists[of tx] obtain m where
    m: "map_norm_to_orig tx (normalise tx) = Inr m" and ok: "map_ok tx (normalise tx) m"
    by blast
  note c = locate_anchor_cases[OF m, of marker is_start]
  have 1: "\<exists>r. locate_anchor tx marker is_start = Inr r" using c by auto
  have 2: "\<forall>off len. locate_anchor tx marker is_start = Inr (off, len) \<and> off \<noteq> - 1 \<longrightarrow>
         0 \<le> off \<and> off < int (length tx) \<and> \<not> isspace (tx ! nat off)"
  proof (intro allI impI)
    fix off len
    assume a: "locate_anchor tx marker is_start = Inr (off, len) \<and> off \<noteq> - 1"
    with c obtain key v where kv: "m key = Some v" "off = int v" by auto
    from map_ok_SomeD[OF ok kv(1)] obtain k where
      "v < length tx" "tx ! v = normalise tx ! k" "\<not> isspace (normalise tx ! k)" by blast
    with kv(2) show "0 \<le> off \<and> off < int (length tx) \<and> \<not> isspace (tx ! nat off)" by simp
  qed
  from 1 2 show ?thesis by blast
qed

theorem locate_anchor_offset_in_bounds_witness:
  "locate_anchor (py_str ''  Title page'') (py_str ''page'') False = Inr (8, 4)
   \<and> (8::int) \<noteq> - 1 \<and> (0::int) \<le> 8 \<and> 8 < int (length (py_str ''  Title page''))
   \<and> \<not> isspace (py_str ''  Title page'' ! nat 8)"
proof -
  have e: "locate_anchor (py_str ''  Title page'') (py_str ''page'') False = Inr (8, 4)"
    by code_simp
  from locate_anchor_offset_in_bounds[of "py_str ''  Title page''" "py_str ''page''" False]
  have "\<forall>off len. locate_anchor (py_str ''  Title page'') (py_str ''page'') False = Inr (off, len)
           \<and> off \<noteq> - 1 \<longrightarrow>
         0 \<le> off \<and> off < int (length (py_str ''  Title page''))
           \<and> \<not> isspace (py_str ''  Title page'' ! nat off)" by blast
  with e have "(0::int) \<le> 8 \<and> 8 < int (length (py_str ''  Title page''))
   \<and> \<not> isspace (py_str ''  Title page'' ! nat 8)" by force
  with e show ?thesis by simp
qed

lemma normalise_hd_nonws: "normalise s \<noteq> [] \<Longrightarrow> \<not> isspace (hd (normalise s))"
  using normalise_ends[of s] by simp

lemma occurrence_in_map:
  assumes ok: "map_ok tx nt m" and occ: "occurs_at pat nt p" and ne: "pat \<noteq> []"
    and hd: "\<not> isspace (hd pat)"
  shows "\<exists>j. m (int p) = Some j \<and> j < length tx \<and> tx ! j = hd pat
           \<and> filter nonws (take j tx) = filter nonws (take p nt)"
proof -
  from occurs_at_nonempty[OF occ ne] have p: "p < length nt" "nt ! p = hd pat" by simp_all
  with hd have "\<not> isspace (nt ! p)" by simp
  from map_ok_SomeI[OF ok p(1) this] p(2) show ?thesis by auto
qed

section \<open>End anchors\<close>

text \<open>
  Claim C8: for an end anchor, Strategy 1 takes the last offset \<open>p\<close> at which the
  normalised marker occurs in the normalised text (what \<open>rfind\<close> returns); when \<open>p\<close> is
  a key of the position map the locator returns the mapped offset and the length of
  the original marker, and \<open>p\<close> is a key whenever the normalised marker is not empty.
\<close>

theorem locate_anchor_end_last_occurrence:
  assumes "occurs_at (normalise marker) (normalise tx) p"
    and "\<forall>q. occurs_at (normalise marker) (normalise tx) q \<longrightarrow> q \<le> p"
  shows "\<exists>m. map_norm_to_orig tx (normalise tx) = Inr m
           \<and> py_rfind (normalise tx) (normalise marker) = int p
           \<and> (\<forall>j. m (int p) = Some j \<longrightarrow>
                 locate_anchor tx marker False = Inr (int j, int (length marker)))
           \<and> (normalise marker \<noteq> [] \<longrightarrow> m (int p) \<noteq> None)"
proof -
  from char_map_exists[of tx] obtain m where
    m: "map_norm_to_orig tx (normalise tx) = Inr m" and ok: "map_ok tx (normalise tx) m"
    by blast
  have r: "py_rfind (normalise tx) (normalise marker) = int p"
    using assms by (rule py_rfind_last)
  have 1: "\<forall>j. m (int p) = Some j \<longrightarrow>
             locate_anchor tx marker False = Inr (int j, int (length marker))"
  proof (intro allI impI)
    fix j assume "m (int p) = Some j"
    then have "strategy1 marker (normalise tx) (normalise marker) m False
        = Inr (Some (int j, int (length marker)))"
      using r by (simp add: strategy1_end)
    then show "locate_anchor tx marker False = Inr (int j, int (length marker))"
      by (simp add: locate_anchor_unfold[OF m])
  qed
  have 2: "normalise marker \<noteq> [] \<longrightarrow> m (int p) \<noteq> None"
  proof
    assume ne: "normalise marker \<noteq> []"
    from occurrence_in_map[OF ok assms(1) ne normalise_hd_nonws[OF ne]]
    show "m (int p) \<noteq> None" by auto
  qed
  from m r 1 2 show ?thesis by blast
qed

theorem locate_anchor_end_last_occurrence_witness:
  "occurs_at (normalise (py_str ''THE END''))
     (normalise (py_str ''THE END of part'' @ [CR, LF, CR, LF] @ py_str ''THE END'' @ [CR, LF])) 0
   \<and> occurs_at (normalise (py_str ''THE END''))
     (normalise (py_str ''THE END of part'' @ [CR, LF, CR, LF] @ py_str ''THE END'' @ [CR, LF])) 17
   \<and> locate_anchor (py_str ''THE END of part'' @ [CR, LF, CR, LF] @ py_str ''THE END'' @ [CR, LF])
        (py_str ''THE END'') False = Inr (19, 7)"
proof -
  let ?tx = "py_str ''THE END of part'' @ [CR, LF, CR, LF] @ py_str ''THE END'' @ [CR, LF]"
  let ?mk = "py_str ''THE END''"
  have o0: "occurs_at (normalise ?mk) (normalise ?tx) 0" by code_simp
  have o17: "occurs_at (normalise ?mk) (normalise ?tx) 17" by code_simp
  have lm: "length (normalise ?mk) = 7" by code_simp
  have lt: "length (normalise ?tx) = 24" by code_simp
  have last: "\<forall>q. occurs_at (normalise ?mk) (normalise ?tx) q \<longrightarrow> q \<le> 17"
  proof (intro allI impI)
    fix q assume "occurs_at (normalise ?mk) (normalise ?tx) q"
    then have "take (length (normalise ?mk)) (drop q (normalise ?tx)) = normalise ?mk"
      by (simp only: occurs_at_def)
    then have "length (take (length (normalise ?mk)) (drop q (normalise ?tx)))
        = length (normalise ?mk)" by (rule arg_cong)
    then have "min 7 (24 - q) = 7" by (simp only: length_take length_drop lm lt)
    then show "q \<le> 17" by arith
  qed
  have ne: "normalise ?mk \<noteq> []" using lm by auto
  from locate_anchor_end_last_occurrence[OF o17 last] ne obtain m j where
    "m (int 17) = Some j" "locate_anchor ?tx ?mk False = Inr (int j, int (length ?mk))"
    by fastforce
  moreover have "locate_anchor ?tx ?mk False = Inr (19, 7)" by code_simp
  ultimately show ?thesis using o0 o17 by simp
qed

section \<open>The single-line fallback\<close>

lemma py_split_nl_set: "l \<in> set (py_split_nl s) \<Longrightarrow> set l \<subseteq> set s"
proof (induction s arbitrary: l)
  case Nil
  then show ?case by simp
next
  case (Cons c cs)
  show ?case
  proof (cases "c = LF")
    case True
    with Cons.prems have "l = [] \<or> l \<in> set (py_split_nl cs)" by simp
    with Cons.IH show ?thesis by auto
  next
    case False
    show ?thesis
    proof (cases "py_split_nl cs")
      case Nil
      with False Cons.prems show ?thesis by simp
    next
      case (Cons x xs)
      with False Cons.prems have "l = c # x \<or> l \<in> set xs" by simp
      moreover have "set x \<subseteq> set cs" using Cons.IH[of x] Cons by simp
      moreover have "l \<in> set xs \<Longrightarrow> set l \<subseteq> set cs" using Cons.IH[of l] Cons by simp
      ultimately show ?thesis by auto
    qed
  qed
qed

lemma py_strip_all_space: "\<forall>c\<in>set l. isspace c \<Longrightarrow> py_strip l = []"
proof -
  assume "\<forall>c\<in>set l. isspace c"
  then have "dropWhile isspace l = []" by simp
  then show ?thesis by (simp only: py_strip_def rev.simps dropWhile.simps)
qed

lemma marker_lines_all_space: "\<forall>c\<in>set marker. isspace c \<Longrightarrow> marker_lines marker = []"
proof -
  assume a: "\<forall>c\<in>set marker. isspace c"
  have "\<forall>l\<in>set (py_split_nl marker). py_strip l = []"
  proof
    fix l assume "l \<in> set (py_split_nl marker)"
    from py_split_nl_set[OF this] a have "\<forall>c\<in>set l. isspace c" by blast
    then show "py_strip l = []" by (rule py_strip_all_space)
  qed
  then show ?thesis by (simp add: marker_lines_def filter_empty_conv)
qed

section \<open>The empty marker\<close>

lemma finditer_empty_member:
  "i \<le> p \<Longrightarrow> p \<le> length tx \<Longrightarrow> p \<in> set (finditer_from [] tx i)"
proof (induction "[] :: pystr" tx i rule: finditer_from.induct)
  case (1 tx i)
  from 1(3,4) have le: "\<not> length tx < i" by simp
  have eq: "finditer_from [] tx i = i # finditer_from [] tx (Suc i)"
    using le by (simp add: finditer_from.simps[of "[]" tx i])
  show ?case
  proof (cases "p = i")
    case True
    with eq show ?thesis by simp
  next
    case False
    with 1(3) have "i + max 1 (length ([] :: pystr)) \<le> p" by simp
    from 1(1)[OF le _ this 1(4)] eq show ?thesis by simp
  qed
qed

lemma py_finditer_empty_pattern:
  "py_finditer [] tx \<noteq> [] \<and> hd (py_finditer [] tx) = 0
   \<and> (\<forall>p\<le>length tx. int p \<in> set (py_finditer [] tx))"
proof -
  have "occurs_at [] tx 0" by (simp add: occurs_at_def)
  from finditer_from_hit[OF this] have "py_finditer [] tx \<noteq> [] \<and> hd (py_finditer [] tx) = 0"
    by (simp add: py_finditer_def)
  moreover have "\<forall>p\<le>length tx. int p \<in> set (py_finditer [] tx)"
    using finditer_empty_member[of 0 _ tx] by (simp add: py_finditer_def)
  ultimately show ?thesis by blast
qed

lemma follows_blank_occurs:
  "follows_blank nt 0 (int k) \<longleftrightarrow> occurs_at [LF, LF] nt k"
proof -
  have "follows_blank nt 0 (int k) \<longleftrightarrow> take 2 (drop k nt) = [LF, LF]"
    using py_slice_nonneg[of nt k] by (simp add: follows_blank_def)
  moreover have "take 2 (drop k nt) = [LF, LF] \<Longrightarrow> k \<le> length nt"
    by (cases "k \<le> length nt") auto
  ultimately show ?thesis by (auto simp: occurs_at_def numeral_2_eq_2)
qed

lemma first_nonws_index:
  assumes "j < length tx" and "\<not> isspace (tx ! j)" and "filter nonws (take j tx) = []"
  shows "j = length (takeWhile isspace tx)"
proof -
  have "\<forall>x\<in>set (take j tx). isspace x" using assms(3) by (simp add: filter_empty_conv)
  then have all: "\<And>i. i < j \<Longrightarrow> isspace (tx ! i)"
    using assms(1) by (metis nth_take nth_mem length_take min.absorb2 less_imp_le)
  have "takeWhile isspace tx = take j tx"
    using all assms(2) by (intro takeWhile_eq_take_P_nth) simp_all
  then show ?thesis using assms(1) by simp
qed

lemma strategy2_empty_marker: "strategy2 [] nt m is_start = Inr (- 1, 0)"
  by (rule strategy2_no_lines) (simp add: py_strip_def)

text \<open>
  With the empty marker the result is not always position 0: a blank line in the
  normalised text sends the selector to a newline, which is no key of the map, and
  Strategy 2 then finds no line; leading whitespace moves the position; an empty text
  has no key at all.
\<close>

theorem locate_anchor_empty_marker_counterexample:
  "locate_anchor [97, LF, LF, 98] [] True = Inr (- 1, 0)
   \<and> locate_anchor [97, LF, LF, 98] [] True \<noteq> Inr (0, 0)
   \<and> locate_anchor [SP, 97] [] True = Inr (1, 0)
   \<and> locate_anchor [] [] True = Inr (- 1, 0)"
  by code_simp

text \<open>
  Claim C9, amended: with the empty marker the locator never raises and the length
  it returns is 0; it returns the index of the first non-whitespace character of the
  text (0 when the text starts with one) when the text has such a character and its
  normalised form contains no blank line, and \<open>(-1, 0)\<close> otherwise.
\<close>

theorem locate_anchor_empty_marker:
  "locate_anchor tx [] True =
     (if normalise tx \<noteq> [] \<and> (\<forall>p. \<not> occurs_at [LF, LF] (normalise tx) p)
      then Inr (int (length (takeWhile isspace tx)), 0)
      else Inr (- 1, 0))"
proof -
  let ?nt = "normalise tx"
  let ?ps = "py_finditer [] ?nt"
  from char_map_exists[of tx] obtain m where
    m: "map_norm_to_orig tx ?nt = Inr m" and ok: "map_ok tx ?nt m" by blast
  have nm: "normalise [] = []" by (simp add: normalise_def sub_cr_def py_strip_def)
  note ep = py_finditer_empty_pattern[of ?nt]
  from ep have ne: "?ps \<noteq> []" by simp
  from pick_best_cases[OF ne, of ?nt 0] obtain p where
    p: "pick_best_occurrence ?ps ?nt 0 = Inr p" "p \<in> set ?ps"
    and c: "(\<exists>i<length ?ps. ?ps ! i = p \<and> follows_blank ?nt 0 p
                \<and> (\<forall>j<i. \<not> follows_blank ?nt 0 (?ps ! j)))
            \<or> ((\<forall>q\<in>set ?ps. \<not> follows_blank ?nt 0 q) \<and> p = hd ?ps)" by blast
  have s1: "strategy1 [] ?nt [] m True =
      (case m p of None \<Rightarrow> Inr None | Some v \<Rightarrow> Inr (Some (int v, 0)))"
    using ne p(1) by (simp add: strategy1_def Let_def split: option.splits)
  have loc: "locate_anchor tx [] True =
      (case m p of None \<Rightarrow> Inr (- 1, 0) | Some v \<Rightarrow> Inr (int v, 0))"
    using s1 by (simp add: locate_anchor_unfold[OF m] nm strategy2_empty_marker
                      split: option.splits)
  show ?thesis
  proof (cases "\<exists>k. occurs_at [LF, LF] ?nt k")
    case True
    then obtain k where k: "occurs_at [LF, LF] ?nt k" by blast
    then have "k \<le> length ?nt" by (simp add: occurs_at_def)
    with ep have "int k \<in> set ?ps" by blast
    moreover have "follows_blank ?nt 0 (int k)" using k by (simp add: follows_blank_occurs)
    ultimately have fb: "follows_blank ?nt 0 p" using c by blast
    from py_finditer_sound[OF p(2)] obtain k' where k': "p = int k'" by blast
    with fb have "occurs_at [LF, LF] ?nt k'" by (simp add: follows_blank_occurs)
    from occurs_at_nonempty[OF this] have "k' < length ?nt" "?nt ! k' = LF" by simp_all
    then have "m p = None"
      using map_ok_NoneI[OF ok, of p] k' by (simp add: isspace_LF)
    with loc True show ?thesis by auto
  next
    case False
    have "\<not> follows_blank ?nt 0 p"
    proof
      assume fb: "follows_blank ?nt 0 p"
      from py_finditer_sound[OF p(2)] obtain k' where "p = int k'" by blast
      with fb False show False by (simp add: follows_blank_occurs)
    qed
    with c ep have p0: "p = 0" by auto
    show ?thesis
    proof (cases "?nt = []")
      case True
      then have "m p = None" using map_ok_NoneI[OF ok, of p] by simp
      with loc True show ?thesis by simp
    next
      case nonempty: False
      then have "0 < length ?nt" "\<not> isspace (?nt ! 0)"
        using normalise_hd_nonws[OF nonempty] by (simp_all add: hd_conv_nth)
      from map_ok_SomeI[OF ok this] obtain j where
        j: "m (int 0) = Some j" "j < length tx" "tx ! j = ?nt ! 0"
           "filter nonws (take j tx) = filter nonws (take 0 ?nt)" by blast
      have "j = length (takeWhile isspace tx)"
        using j(2,3,4) \<open>\<not> isspace (?nt ! 0)\<close> by (intro first_nonws_index) simp_all
      with loc p0 j(1) False nonempty show ?thesis by simp
    qed
  qed
qed

theorem locate_anchor_empty_marker_witness:
  "normalise (py_str ''  Title'') \<noteq> []
   \<and> locate_anchor (py_str ''  Title'') [] True = Inr (2, 0)
   \<and> occurs_at [LF, LF] (normalise [97, LF, LF, 98]) 1
   \<and> locate_anchor [97, LF, LF, 98] [] True = Inr (- 1, 0)"
proof -
  have o: "occurs_at [LF, LF] (normalise [97, LF, LF, 98]) 1" by code_simp
  have n: "normalise (py_str ''  Title'') \<noteq> []" by code_simp
  have t: "int (length (takeWhile isspace (py_str ''  Title''))) = 2" by code_simp
  have nb: "\<forall>p. \<not> occurs_at [LF, LF] (normalise (py_str ''  Title'')) p"
  proof (intro allI notI)
    fix p assume a: "occurs_at [LF, LF] (normalise (py_str ''  Title'')) p"
    from occurs_at_nonempty[OF a] have "LF \<in> set (normalise (py_str ''  Title''))"
      by (metis list.sel(1) list.distinct(1) nth_mem)
    moreover have "LF \<notin> set (normalise (py_str ''  Title''))" by code_simp
    ultimately show False by simp
  qed
  from locate_anchor_empty_marker[of "py_str ''  Title''"] n nb t
  have 1: "locate_anchor (py_str ''  Title'') [] True = Inr (2, 0)" by simp
  from locate_anchor_empty_marker[of "[97, LF, LF, 98]"] o
  have 2: "locate_anchor [97, LF, LF, 98] [] True = Inr (- 1, 0)" by auto
  from n 1 o 2 show ?thesis by blast
qed

section \<open>Start anchors: what the returned pair locates\<close>

lemma py_slice_from:
  "py_slice xs (int a) (int a + int n) = take n (drop a xs)"
proof (cases "a \<le> length xs")
  case True
  then show ?thesis
    by (auto simp: py_slice_def py_clamp_def Let_def nat_add_distrib min_def)
next
  case False
  then show ?thesis by (auto simp: py_slice_def py_clamp_def Let_def)
qed

lemma filter_drop_parity:
  assumes "filter P xs = filter P ys" and "filter P (take j xs) = filter P (take p ys)"
  shows "filter P (drop j xs) = filter P (drop p ys)"
proof -
  have "filter P (take j xs) @ filter P (drop j xs) = filter P xs"
    by (metis filter_append append_take_drop_id)
  moreover have "filter P (take p ys) @ filter P (drop p ys) = filter P ys"
    by (metis filter_append append_take_drop_id)
  ultimately have "filter P (take j xs) @ filter P (drop j xs)
      = filter P (take j xs) @ filter P (drop p ys)"
    using assms by simp
  then show ?thesis by simp
qed

lemma count_take_inj:
  assumes "j < length xs" and "p < length xs" and "P (xs ! j)" and "P (xs ! p)"
    and "filter P (take j xs) = filter P (take p xs)"
  shows "j = p"
proof (rule ccontr)
  assume "j \<noteq> p"
  then have "j < p \<or> p < j" by arith
  then show False
  proof
    assume "j < p"
    from count_take_strict[of j p xs P, OF this assms(1,3)] assms(5) show False by simp
  next
    assume "p < j"
    from count_take_strict[of p j xs P, OF this assms(2,4)] assms(5) show False by simp
  qed
qed

text \<open>
  The claimed round trip fails where the text and the marker differ in the amount of
  whitespace: the marker \<open>a b\<close> is the substring \<open>a  b\<close> of the text up to whitespace,
  the locator returns offset 0 and length 3, and the three characters from offset 0
  normalise to \<open>a\<close>.
\<close>

theorem locate_anchor_round_trip_counterexample:
  "normalise (py_str ''a  b'') \<noteq> []
   \<and> normalise (py_slice (py_str ''a  b'') 0 4) = normalise (py_str ''a b'')
   \<and> ws_parity (py_slice (py_str ''a  b'') 0 4) (py_str ''a b'')
   \<and> locate_anchor (py_str ''a  b'') (py_str ''a b'') True = Inr (0, 3)
   \<and> normalise (py_slice (py_str ''a  b'') 0 (0 + 3)) = py_str ''a''
   \<and> normalise (py_slice (py_str ''a  b'') 0 (0 + 3)) \<noteq> normalise (py_str ''a b'')"
  by code_simp

section \<open>Normalisation is local between non-whitespace characters\<close>

lemma normalise_collapse: "normalise s = py_strip (collapse s)"
  by (simp add: normalise_def collapse_def)

lemma takeWhile_append_stop: "\<not> P c \<Longrightarrow> takeWhile P (xs @ c # ys) = takeWhile P xs"
  by (induction xs) auto

lemma dropWhile_append_stop: "\<not> P c \<Longrightarrow> dropWhile P (xs @ c # ys) = dropWhile P xs @ c # ys"
  by (induction xs) auto

lemma re_sub_run_split:
  "\<not> P c \<Longrightarrow>
     re_sub_run P k r (xs @ c # ys) = re_sub_run P k r xs @ c # re_sub_run P k r ys"
proof (induction P k r xs rule: re_sub_run.induct)
  case (1 P k r)
  then show ?case by simp
next
  case (2 P k r x xs)
  have tw: "takeWhile P ((x # xs) @ c # ys) = takeWhile P (x # xs)"
    using 2(3) by (rule takeWhile_append_stop)
  have dw: "dropWhile P ((x # xs) @ c # ys) = dropWhile P (x # xs) @ c # ys"
    using 2(3) by (rule dropWhile_append_stop)
  show ?case
  proof (cases "P x \<and> k \<le> length (takeWhile P (x # xs))")
    case True
    have "re_sub_run P k r ((x # xs) @ c # ys)
        = r @ re_sub_run P k r (dropWhile P ((x # xs) @ c # ys))"
      using True tw by (simp del: takeWhile.simps dropWhile.simps)
    also have "\<dots> = r @ re_sub_run P k r (dropWhile P (x # xs)) @ c # re_sub_run P k r ys"
      using 2(1)[OF True 2(3)] dw by simp
    finally have e: "re_sub_run P k r ((x # xs) @ c # ys)
        = r @ re_sub_run P k r (dropWhile P (x # xs)) @ c # re_sub_run P k r ys" .
    have "re_sub_run P k r (x # xs) = r @ re_sub_run P k r (dropWhile P (x # xs))"
      using True by (simp del: takeWhile.simps dropWhile.simps)
    with e show ?thesis by simp
  next
    case False
    have "re_sub_run P k r ((x # xs) @ c # ys) = x # re_sub_run P k r (xs @ c # ys)"
      using False tw by (auto simp del: takeWhile.simps dropWhile.simps)
    also have "\<dots> = x # re_sub_run P k r xs @ c # re_sub_run P k r ys"
      using 2(2)[OF False 2(3)] by simp
    finally have e: "re_sub_run P k r ((x # xs) @ c # ys)
        = x # re_sub_run P k r xs @ c # re_sub_run P k r ys" .
    have "re_sub_run P k r (x # xs) = x # re_sub_run P k r xs"
      using False by (auto simp del: takeWhile.simps dropWhile.simps)
    with e show ?thesis by simp
  qed
qed

lemma collapse_Nil: "collapse [] = []"
  by (simp add: collapse_def sub_cr_def)

lemma collapse_split:
  assumes "\<not> isspace c"
  shows "collapse (xs @ c # ys) = collapse xs @ c # collapse ys"
proof -
  have cr: "c \<noteq> CR" and lf: "c \<noteq> LF" using assms isspace_CR isspace_LF by auto
  have h: "\<not> hws c" using assms by (simp add: hws_def)
  have "sub_cr (xs @ c # ys) = sub_cr xs @ c # sub_cr ys"
    using cr by (simp add: sub_cr_def)
  then show ?thesis
    unfolding collapse_def using lf h by (simp add: re_sub_run_split)
qed

lemma collapse_Cons: "\<not> isspace c \<Longrightarrow> collapse (c # ys) = c # collapse ys"
  using collapse_split[of c "[]" ys] by (simp add: collapse_Nil)

lemma collapse_snoc: "\<not> isspace c \<Longrightarrow> collapse (xs @ [c]) = collapse xs @ [c]"
  using collapse_split[of c xs "[]"] by (simp add: collapse_Nil)

lemma collapse_filter: "filter nonws (collapse s) = filter nonws s"
proof -
  have 3: "filter nonws (re_sub_run hws 1 [SP] x) = filter nonws x" for x
    by (rule re_sub_run_filter) (simp_all add: hws_isspace isspace_SP)
  have 2: "filter nonws (re_sub_run (\<lambda>c. c = LF) 3 [LF, LF] x) = filter nonws x" for x
    by (rule re_sub_run_filter) (simp_all add: isspace_LF)
  show ?thesis unfolding collapse_def by (simp only: 3 2 sub_cr_filter)
qed

lemma collapse_all_space: "\<forall>c\<in>set w. isspace c \<Longrightarrow> \<forall>c\<in>set (collapse w). isspace c"
proof -
  assume "\<forall>c\<in>set w. isspace c"
  then have "filter nonws w = []" by (simp add: filter_empty_conv)
  then have "filter nonws (collapse w) = []" by (simp add: collapse_filter)
  then show ?thesis by (simp add: filter_empty_conv)
qed

text \<open>Splitting a text at a non-whitespace character splits its collapsed form.\<close>

lemma collapse_at:
  assumes "j < length tx" and "\<not> isspace (tx ! j)"
  shows "collapse tx = collapse (take j tx) @ collapse (drop j tx)"
    and "collapse (take (Suc j) tx) = collapse (take j tx) @ [tx ! j]"
    and "collapse (drop j tx) = tx ! j # collapse (drop (Suc j) tx)"
proof -
  have d: "drop j tx = tx ! j # drop (Suc j) tx" using assms(1) by (simp add: Cons_nth_drop_Suc)
  show 3: "collapse (drop j tx) = tx ! j # collapse (drop (Suc j) tx)"
    using collapse_Cons[OF assms(2)] d by simp
  have "tx = take j tx @ tx ! j # drop (Suc j) tx" using assms(1) by (simp add: id_take_nth_drop)
  then have "collapse tx = collapse (take j tx @ tx ! j # drop (Suc j) tx)" by simp
  also have "\<dots> = collapse (take j tx) @ tx ! j # collapse (drop (Suc j) tx)"
    using assms(2) by (rule collapse_split)
  finally show "collapse tx = collapse (take j tx) @ collapse (drop j tx)" using 3 by simp
  have "take (Suc j) tx = take j tx @ [tx ! j]" using assms(1) by (simp add: take_Suc_conv_app_nth)
  then show "collapse (take (Suc j) tx) = collapse (take j tx) @ [tx ! j]"
    using collapse_snoc[OF assms(2)] by simp
qed

lemma py_strip_append_space:
  assumes "\<forall>c\<in>set w. isspace c"
  shows "py_strip (x @ w) = py_strip x"
proof (cases "\<forall>c\<in>set x. isspace c")
  case True
  then have "\<forall>c\<in>set (x @ w). isspace c" using assms by auto
  then have "py_strip (x @ w) = []" by (rule py_strip_all_space)
  moreover have "py_strip x = []" using True by (rule py_strip_all_space)
  ultimately show ?thesis by simp
next
  case False
  then obtain a where "a \<in> set x" "\<not> isspace a" by blast
  then have "dropWhile isspace (x @ w) = dropWhile isspace x @ w"
    by (simp add: dropWhile_append1)
  then have "rev (dropWhile isspace (x @ w)) = rev w @ rev (dropWhile isspace x)" by simp
  moreover have "dropWhile isspace (rev w @ rev (dropWhile isspace x))
      = dropWhile isspace (rev (dropWhile isspace x))"
    using assms by (intro dropWhile_append2) simp
  ultimately show ?thesis by (simp add: py_strip_def)
qed

lemma py_strip_index:
  assumes "p + n \<le> length (py_strip G)"
  shows "take n (drop p (py_strip G)) = take n (drop (length (takeWhile isspace G) + p) G)"
    and "filter nonws (take p (py_strip G))
          = filter nonws (take (length (takeWhile isspace G) + p) G)"
    and "length (takeWhile isspace G) + p + n \<le> length G"
proof -
  let ?lead = "length (takeWhile isspace G)"
  let ?X = "drop ?lead G"
  obtain T where s: "py_strip G = take T ?X" using py_strip_take_drop[of G] by blast
  from assms s have le: "p + n \<le> T" "p + n \<le> length ?X" by simp_all
  have "drop p (take T ?X) = take (T - p) (drop p ?X)" by (simp add: drop_take)
  then have "take n (drop p (py_strip G)) = take n (take (T - p) (drop p ?X))"
    using s by simp
  also have "\<dots> = take n (drop p ?X)" using le(1) by (simp add: min_def)
  also have "\<dots> = take n (drop (?lead + p) G)" by (simp add: add.commute)
  finally show "take n (drop p (py_strip G)) = take n (drop (?lead + p) G)" .
  have "take p (py_strip G) = take p ?X" using s le(1) by (simp add: min_def)
  moreover have "take (?lead + p) G = take ?lead G @ take p ?X" by (simp add: take_add)
  moreover have "filter nonws (take ?lead G) = []"
    by (simp add: filter_empty_conv takeWhile_eq_take[symmetric] del: length_takeWhile_le)
       (meson set_takeWhileD)
  ultimately show "filter nonws (take p (py_strip G)) = filter nonws (take (?lead + p) G)"
    by simp
  show "?lead + p + n \<le> length G"
    using le(2) length_takeWhile_le[of isspace G] by (simp only: length_drop)
qed

lemma count_take_le_imp_le:
  assumes "k' < length xs" and "P (xs ! k')"
    and "length (filter P (take k xs)) \<le> length (filter P (take k' xs))"
  shows "k \<le> k'"
proof (rule ccontr)
  assume "\<not> k \<le> k'"
  then have "k' < k" by simp
  from count_take_strict[of k' k xs P, OF this assms(1,2)] assms(3) show False by simp
qed

text \<open>
  An occurrence in the normalised text of a pattern with non-whitespace ends comes
  from a stretch of the original text that starts at the mapped offset and normalises
  to the pattern.
\<close>

lemma occurrence_extent:
  assumes ok: "map_ok tx (normalise tx) m"
    and occ: "occurs_at pat (normalise tx) p"
    and ne: "pat \<noteq> []"
    and h: "\<not> isspace (hd pat)" and l: "\<not> isspace (last pat)"
    and mj: "m (int p) = Some j"
  shows "\<exists>L. 0 < L \<and> j + L \<le> length tx \<and> \<not> isspace (tx ! (j + L - 1))
           \<and> normalise (take L (drop j tx)) = pat"
proof -
  let ?nt = "normalise tx" and ?G = "collapse tx"
  let ?lead = "length (takeWhile isspace ?G)"
  let ?n = "length pat"
  have nt: "?nt = py_strip ?G" by (rule normalise_collapse)
  from ne have npos: "0 < ?n" by simp
  from occ have tk: "take ?n (drop p ?nt) = pat" by (simp add: occurs_at_def)
  have "length (take ?n (drop p ?nt)) = ?n" using tk by simp
  then have "min ?n (length ?nt - p) = ?n" by (simp only: length_take length_drop)
  then have pn: "p + ?n \<le> length ?nt" using npos by arith
  define p' where "p' = p + ?n - 1"
  have p'lt: "p' < length ?nt" and pp': "p \<le> p'" and p'eq: "Suc p' = p + ?n"
    using pn npos unfolding p'_def by arith+
  have "last pat = pat ! (?n - 1)" using ne by (simp add: last_conv_nth)
  also have "\<dots> = take ?n (drop p ?nt) ! (?n - 1)" using tk by simp
  also have "\<dots> = ?nt ! (p + (?n - 1))" using npos pn by simp
  also have "p + (?n - 1) = p'" using npos unfolding p'_def by arith
  finally have lastp: "?nt ! p' = last pat" by simp
  from occurs_at_nonempty[OF occ ne] have plt: "p < length ?nt" and hdp: "?nt ! p = hd pat"
    by simp_all
  from map_ok_SomeD[OF ok mj] have jlt: "j < length tx" and txj: "tx ! j = ?nt ! p"
    and fj: "filter nonws (take j tx) = filter nonws (take p ?nt)" by auto
  have nwj: "\<not> isspace (tx ! j)" using txj hdp h by simp
  have "\<not> isspace (?nt ! p')" using lastp l by simp
  from map_ok_SomeI[OF ok p'lt this] obtain j' where
    j'lt: "j' < length tx" and txj': "tx ! j' = ?nt ! p'"
    and fj': "filter nonws (take j' tx) = filter nonws (take p' ?nt)" by blast
  have nwj': "\<not> isspace (tx ! j')" using txj' lastp l by simp
  have jj': "j \<le> j'"
  proof (rule count_take_le_imp_le[OF j'lt, of nonws])
    show "\<not> isspace (tx ! j')" by (rule nwj')
    show "length (filter nonws (take j tx)) \<le> length (filter nonws (take j' tx))"
      using count_take_mono[OF pp', of nonws ?nt] fj fj' by simp
  qed
  have idx: "length (collapse (take i tx)) = ?lead + k"
    if ilt: "i < length tx" and nwi: "\<not> isspace (tx ! i)" and klt: "k < length ?nt"
      and ti: "tx ! i = ?nt ! k"
      and fi: "filter nonws (take i tx) = filter nonws (take k ?nt)" for i k
  proof (rule count_take_inj[of _ ?G _ nonws])
    have G: "?G = collapse (take i tx) @ collapse (drop i tx)"
      and D: "collapse (drop i tx) = tx ! i # collapse (drop (Suc i) tx)"
      using collapse_at[OF ilt nwi] by simp_all
    show "length (collapse (take i tx)) < length ?G" using G D by simp
    have at: "?G ! length (collapse (take i tx)) = tx ! i"
      using G D by (metis nth_append_length)
    then show "\<not> isspace (?G ! length (collapse (take i tx)))" using nwi by simp
    have k1: "k + 1 \<le> length (py_strip ?G)" using klt nt by simp
    from py_strip_index(3)[OF k1] show lk: "?lead + k < length ?G" by simp
    have "take 1 (drop k (py_strip ?G)) = take 1 (drop (?lead + k) ?G)"
      using py_strip_index(1)[OF k1] .
    then have "?nt ! k = ?G ! (?lead + k)"
      using klt lk nt by (simp add: take_Suc_conv_app_nth Cons_nth_drop_Suc[symmetric]
                            take_Suc hd_drop_conv_nth)
    then show "\<not> isspace (?G ! (?lead + k))" using ti nwi by simp
    have "k + 0 \<le> length (py_strip ?G)" using klt nt by simp
    from py_strip_index(2)[OF this]
    have "filter nonws (take k ?nt) = filter nonws (take (?lead + k) ?G)" using nt by simp
    moreover have "filter nonws (take (length (collapse (take i tx))) ?G)
        = filter nonws (take i tx)"
      using G by (simp add: collapse_filter)
    ultimately show "filter nonws (take (length (collapse (take i tx))) ?G)
        = filter nonws (take (?lead + k) ?G)" using fi by simp
  qed
  have q: "length (collapse (take j tx)) = ?lead + p"
    using idx[OF jlt nwj plt txj fj] .
  have q': "length (collapse (take j' tx)) = ?lead + p'"
    using idx[OF j'lt nwj' p'lt txj' fj'] .
  define L where "L = Suc j' - j"
  define M where "M = take L (drop j tx)"
  have Lpos: "0 < L" and jL: "j + L = Suc j'" using jj' by (simp_all add: L_def)
  have tkM: "take (Suc j') tx = take j tx @ M"
    using jL by (metis M_def take_add)
  have Mhd: "M = tx ! j # take (L - 1) (drop (Suc j) tx)"
    using Lpos jlt by (cases L) (simp_all add: M_def Cons_nth_drop_Suc[symmetric])
  have "collapse (take (Suc j') tx) = collapse (take j tx) @ collapse M"
    using tkM Mhd collapse_split[OF nwj, of "take j tx"] collapse_Cons[OF nwj] by metis
  moreover have "collapse (take (Suc j') tx) = collapse (take j' tx) @ [tx ! j']"
    using collapse_at(2)[OF j'lt nwj'] .
  ultimately have "length (collapse (take j tx)) + length (collapse M)
      = Suc (length (collapse (take j' tx)))"
    by (metis length_append length_append_singleton)
  then have lenM: "length (collapse M) = ?n" using q q' p'eq by simp
  have Mlast: "M = take (L - 1) (drop j tx) @ [tx ! j']"
  proof -
    have "L - 1 < length tx - j" using jL j'lt Lpos by arith
    then have "L - 1 < length (drop j tx)" by simp
    then have "take (Suc (L - 1)) (drop j tx) = take (L - 1) (drop j tx) @ [drop j tx ! (L - 1)]"
      by (rule take_Suc_conv_app_nth)
    moreover have "j + (L - 1) = j'" using jL Lpos by arith
    then have "drop j tx ! (L - 1) = tx ! j'" using jlt by simp
    ultimately show ?thesis using Lpos by (simp add: M_def)
  qed
  have "drop j tx = M @ drop L (drop j tx)"
    unfolding M_def by (simp only: append_take_drop_id)
  then have "drop j tx = take (L - 1) (drop j tx) @ tx ! j' # drop L (drop j tx)"
    using Mlast by simp
  then have "collapse (drop j tx)
      = collapse (take (L - 1) (drop j tx)) @ tx ! j' # collapse (drop L (drop j tx))"
    using collapse_split[OF nwj'] by metis
  moreover have "collapse M = collapse (take (L - 1) (drop j tx)) @ [tx ! j']"
    using Mlast collapse_snoc[OF nwj'] by metis
  ultimately have cd: "collapse (drop j tx) = collapse M @ collapse (drop L (drop j tx))"
    by simp
  have G: "?G = collapse (take j tx) @ collapse (drop j tx)"
    using collapse_at(1)[OF jlt nwj] .
  have "drop (?lead + p) ?G = collapse (drop j tx)"
    using G q by (metis append_eq_conv_conj)
  then have "take ?n (drop (?lead + p) ?G) = collapse M" using cd lenM by simp
  moreover have "take ?n (drop p ?nt) = take ?n (drop (?lead + p) ?G)"
    using py_strip_index(1)[of p ?n ?G] pn nt by simp
  ultimately have cM: "collapse M = pat" using tk by simp
  have "normalise M = py_strip pat" using cM by (simp add: normalise_collapse)
  also have "\<dots> = pat" using ne h l by (intro py_strip_fix) simp
  finally have "normalise (take L (drop j tx)) = pat" by (simp add: M_def)
  moreover have "j + L \<le> length tx" using jL j'lt by simp
  moreover have "\<not> isspace (tx ! (j + L - 1))" using jL nwj' by simp
  ultimately show ?thesis using Lpos by blast
qed

lemma slice_round_trip_iff:
  assumes Lpos: "0 < L" and Lle: "L \<le> length D" and nw: "\<not> isspace (D ! (L - 1))"
    and ext: "normalise (take L D) = pat"
  shows "normalise (take n D) = pat
         \<longleftrightarrow> filter nonws (take n D) = filter nonws pat"
proof
  assume "normalise (take n D) = pat"
  then show "filter nonws (take n D) = filter nonws pat"
    using normalise_filter[of "take n D"] by simp
next
  assume eq: "filter nonws (take n D) = filter nonws pat"
  have fL: "filter nonws (take L D) = filter nonws pat"
    using ext normalise_filter[of "take L D"] by simp
  have L1: "L - 1 < L" "L - 1 < length D" using Lpos Lle by arith+
  have Ln: "L \<le> n"
  proof (rule ccontr)
    assume "\<not> L \<le> n"
    then have "n \<le> L - 1" by arith
    from count_take_mono[OF this, of nonws D]
    have "length (filter nonws (take n D)) \<le> length (filter nonws (take (L - 1) D))" .
    moreover have "length (filter nonws (take (L - 1) D)) < length (filter nonws (take L D))"
      using count_take_strict[of "L - 1" L D nonws, OF L1] nw by simp
    ultimately show False using eq fL by simp
  qed
  define W where "W = take (n - L) (drop L D)"
  have split: "take n D = take L D @ W"
    using Ln unfolding W_def by (metis take_add le_add_diff_inverse)
  have "filter nonws (take L D) @ filter nonws W = filter nonws (take L D)"
    using split eq fL by (metis filter_append)
  then have Wws: "\<forall>c\<in>set W. isspace c" by (simp add: filter_empty_conv)
  have M: "take L D = take (L - 1) D @ [D ! (L - 1)]"
    using take_Suc_conv_app_nth[OF L1(2)] Lpos by simp
  have "take n D = take (L - 1) D @ D ! (L - 1) # W" using split M by simp
  then have "collapse (take n D) = collapse (take (L - 1) D) @ D ! (L - 1) # collapse W"
    using collapse_split[OF nw] by metis
  moreover have "collapse (take L D) = collapse (take (L - 1) D) @ [D ! (L - 1)]"
    using M collapse_snoc[OF nw] by metis
  ultimately have "collapse (take n D) = collapse (take L D) @ collapse W" by simp
  then have "normalise (take n D) = py_strip (collapse (take L D) @ collapse W)"
    by (simp add: normalise_collapse)
  also have "\<dots> = py_strip (collapse (take L D))"
    using collapse_all_space[OF Wws] by (rule py_strip_append_space)
  also have "\<dots> = pat" using ext by (simp add: normalise_collapse)
  finally show "normalise (take n D) = pat" .
qed

lemma normalise_last_nonws: "normalise s \<noteq> [] \<Longrightarrow> \<not> isspace (last (normalise s))"
  using normalise_ends[of s] by simp

lemma start_round_trip_occ:
  assumes "normalise marker \<noteq> []"
    and "occurs_at (normalise marker) (normalise tx) q"
  shows "\<exists>m p j L rest.
           locate_anchor tx marker True = Inr (int j, int (length marker))
         \<and> map_norm_to_orig tx (normalise tx) = Inr m \<and> m (int p) = Some j
         \<and> occurs_at (normalise marker) (normalise tx) p
         \<and> pick_best_occurrence (py_finditer (normalise marker) (normalise tx)) (normalise tx)
              (int (length (normalise marker))) = Inr (int p)
         \<and> j < length tx \<and> tx ! j = hd (normalise marker)
         \<and> filter (\<lambda>c. \<not> isspace c) (take j tx)
             = filter (\<lambda>c. \<not> isspace c) (take p (normalise tx))
         \<and> filter (\<lambda>c. \<not> isspace c) (drop j tx)
             = filter (\<lambda>c. \<not> isspace c) (normalise marker) @ rest
         \<and> 0 < L \<and> j + L \<le> length tx
         \<and> normalise (py_slice tx (int j) (int j + int L)) = normalise marker
         \<and> (normalise (py_slice tx (int j) (int j + int (length marker))) = normalise marker
              \<longleftrightarrow> filter (\<lambda>c. \<not> isspace c) (py_slice tx (int j) (int j + int (length marker)))
                    = filter (\<lambda>c. \<not> isspace c) marker)
         \<and> (normalise tx = tx \<and> normalise marker = marker \<longrightarrow>
               py_slice tx (int j) (int j + int (length marker)) = marker
             \<and> normalise (py_slice tx (int j) (int j + int (length marker)))
                 = normalise marker)"
proof -
  let ?nt = "normalise tx" and ?nm = "normalise marker"
  from char_map_exists[of tx] obtain m where
    m: "map_norm_to_orig tx ?nt = Inr m" and ok: "map_ok tx ?nt m" by blast
  from assms(2) have ne: "py_finditer ?nm ?nt \<noteq> []" by (auto simp: py_finditer_empty)
  from strategy1_start[OF ne, of marker m] obtain p' where
    p': "pick_best_occurrence (py_finditer ?nm ?nt) ?nt (int (length ?nm)) = Inr p'"
        "p' \<in> set (py_finditer ?nm ?nt)"
        "strategy1 marker ?nt ?nm m True =
           (case m p' of None \<Rightarrow> Inr None | Some v \<Rightarrow> Inr (Some (int v, int (length marker))))"
    by blast
  from py_finditer_sound[OF p'(2)] obtain p where p: "p' = int p" "occurs_at ?nm ?nt p"
    by blast
  note hdn = normalise_hd_nonws[OF assms(1)] and lastn = normalise_last_nonws[OF assms(1)]
  from occurrence_in_map[OF ok p(2) assms(1) hdn] obtain j where
    j: "m (int p) = Some j" "j < length tx" "tx ! j = hd ?nm"
       "filter nonws (take j tx) = filter nonws (take p ?nt)" by blast
  have loc: "locate_anchor tx marker True = Inr (int j, int (length marker))"
    using p'(3) p(1) j(1) by (simp add: locate_anchor_unfold[OF m])
  have par: "filter nonws tx = filter nonws ?nt" by (simp add: normalise_filter)
  have tk: "take (length ?nm) (drop p ?nt) = ?nm" using p(2) by (simp add: occurs_at_def)
  have "drop p ?nt = take (length ?nm) (drop p ?nt) @ drop (length ?nm) (drop p ?nt)"
    by (simp only: append_take_drop_id)
  then have dp: "drop p ?nt = ?nm @ drop (length ?nm) (drop p ?nt)" using tk by simp
  have "filter nonws (drop j tx) = filter nonws (drop p ?nt)"
    using par j(4) by (rule filter_drop_parity)
  also have "\<dots> = filter nonws (?nm @ drop (length ?nm) (drop p ?nt))" using dp by simp
  finally have agree: "filter nonws (drop j tx)
      = filter nonws ?nm @ filter nonws (drop (length ?nm) (drop p ?nt))" by simp
  from occurrence_extent[OF ok p(2) assms(1) hdn lastn j(1)] obtain L where
    L: "0 < L" "j + L \<le> length tx" "\<not> isspace (tx ! (j + L - 1))"
       "normalise (take L (drop j tx)) = ?nm" by blast
  have valid: "normalise (py_slice tx (int j) (int j + int L)) = ?nm"
    using L(4) by (simp add: py_slice_from)
  have "L \<le> length (drop j tx)" using L(2) by simp
  moreover have "\<not> isspace (drop j tx ! (L - 1))"
  proof -
    have "j + (L - 1) = j + L - 1" using L(1) by arith
    moreover have "j + (L - 1) < length tx" using L(1,2) by arith
    ultimately show ?thesis using L(3) by simp
  qed
  ultimately have "normalise (take (length marker) (drop j tx)) = ?nm
      \<longleftrightarrow> filter nonws (take (length marker) (drop j tx)) = filter nonws ?nm"
    using slice_round_trip_iff[OF L(1) _ _ L(4), of "length marker"] by simp
  then have iff: "normalise (py_slice tx (int j) (int j + int (length marker))) = ?nm
      \<longleftrightarrow> filter nonws (py_slice tx (int j) (int j + int (length marker)))
            = filter nonws marker"
    by (simp add: py_slice_from normalise_filter)
  have rt: "?nt = tx \<and> ?nm = marker \<longrightarrow>
               py_slice tx (int j) (int j + int (length marker)) = marker
             \<and> normalise (py_slice tx (int j) (int j + int (length marker))) = ?nm"
  proof
    assume a: "?nt = tx \<and> ?nm = marker"
    from occurs_at_nonempty[OF p(2) assms(1)] have pl: "p < length ?nt" "?nt ! p = hd ?nm"
      by simp_all
    have "j = p"
    proof (rule count_take_inj[of j tx p nonws])
      show "j < length tx" by (rule j(2))
      show "p < length tx" using pl(1) a by simp
      show "\<not> isspace (tx ! j)" using j(3) hdn by simp
      show "\<not> isspace (tx ! p)" using pl(2) a hdn by simp
      show "filter nonws (take j tx) = filter nonws (take p tx)" using j(4) a by simp
    qed
    then have "py_slice tx (int j) (int j + int (length marker)) = marker"
      using tk a by (simp add: py_slice_from)
    then show "py_slice tx (int j) (int j + int (length marker)) = marker
             \<and> normalise (py_slice tx (int j) (int j + int (length marker))) = ?nm"
      by simp
  qed
  from loc m j(1) p(2) p'(1) p(1) j(2,3,4) agree L(1,2) valid iff rt show ?thesis by blast
qed

lemma dropWhile_keep:
  "x \<noteq> [] \<Longrightarrow> \<not> P (hd x) \<Longrightarrow> dropWhile P (a @ x @ b) = dropWhile P a @ x @ b"
proof (induction a)
  case Nil
  then show ?case by (cases x) simp_all
next
  case (Cons c a)
  then show ?case by simp
qed

lemma py_strip_keeps:
  assumes "x \<noteq> []" and "\<not> isspace (hd x)" and "\<not> isspace (last x)"
  shows "\<exists>a' b'. py_strip (a @ x @ b) = a' @ x @ b'"
proof -
  have 1: "dropWhile isspace (a @ x @ b) = dropWhile isspace a @ x @ b"
    using assms(1,2) by (rule dropWhile_keep)
  have "rev x \<noteq> []" and "\<not> isspace (hd (rev x))"
    using assms(1,3) by (simp_all add: hd_rev)
  then have 2: "dropWhile isspace (rev b @ rev x @ rev (dropWhile isspace a))
      = dropWhile isspace (rev b) @ rev x @ rev (dropWhile isspace a)"
    by (rule dropWhile_keep)
  have "py_strip (a @ x @ b)
      = rev (dropWhile isspace (rev b @ rev x @ rev (dropWhile isspace a)))"
    using 1 by (simp add: py_strip_def)
  also have "\<dots> = dropWhile isspace a @ x @ rev (dropWhile isspace (rev b))"
    using 2 by simp
  finally show ?thesis by blast
qed

lemma takeWhile_short: "\<exists>c\<in>set xs. \<not> P c \<Longrightarrow> length (takeWhile P xs) < length xs"
  by (induction xs) auto

lemma occurs_at_middle: "occurs_at x (a @ x @ b) (length a)"
  by (simp add: occurs_at_def)

text \<open>
  A stretch of the text whose normalisation is not empty shows up in the normalised
  text: its normalisation occurs there.
\<close>

lemma substring_occurs:
  assumes nm: "normalise (take n (drop a tx)) = pat" and ne: "pat \<noteq> []"
  shows "\<exists>q. occurs_at pat (normalise tx) q"
proof -
  define S where "S = take n (drop a tx)"
  have hdp: "\<not> isspace (hd pat)" and lastp: "\<not> isspace (last pat)"
    using nm ne normalise_hd_nonws normalise_last_nonws by blast+
  have fS: "filter nonws S = filter nonws pat"
    using nm normalise_filter[of S] by (simp add: S_def)
  have "filter nonws pat \<noteq> []" using ne hdp by (cases pat) auto
  with fS have "filter nonws S \<noteq> []" by simp
  then have ex: "\<exists>c\<in>set S. \<not> isspace c" by (simp add: filter_empty_conv)
  define i1 where "i1 = length (takeWhile isspace S)"
  have i1lt: "i1 < length S" using ex unfolding i1_def by (rule takeWhile_short)
  then have nw1: "\<not> isspace (S ! i1)" unfolding i1_def by (rule nth_length_takeWhile)
  define R where "R = drop i1 S"
  define t where "t = length (takeWhile isspace (rev R))"
  have Rne: "R \<noteq> []" and Rhd: "R ! 0 = S ! i1" using i1lt by (simp_all add: R_def)
  have exR: "\<exists>c\<in>set (rev R). \<not> isspace c"
    using Rne Rhd nw1 by (metis nth_mem length_greater_0_conv set_rev)
  have tlt': "t < length (rev R)" using exR unfolding t_def by (rule takeWhile_short)
  then have tlt: "t < length R" by simp
  have "\<not> isspace (rev R ! t)" using tlt' unfolding t_def by (rule nth_length_takeWhile)
  define i2 where "i2 = length R - Suc t"
  have i2lt: "i2 < length R" and "rev R ! t = R ! i2"
    using tlt by (simp_all add: i2_def rev_nth)
  then have nw2: "\<not> isspace (R ! i2)" using \<open>\<not> isspace (rev R ! t)\<close> by simp
  have W1: "\<forall>c\<in>set (take i1 S). isspace c"
    unfolding i1_def by (metis takeWhile_eq_take set_takeWhileD)
  have "rev (drop (Suc i2) R) = take t (rev R)"
    using tlt by (simp add: i2_def rev_drop)
  also have "\<dots> = takeWhile isspace (rev R)"
    unfolding t_def by (rule takeWhile_eq_take[symmetric])
  finally have W2: "\<forall>c\<in>set (drop (Suc i2) R). isspace c"
    by (metis set_rev set_takeWhileD)
  define M where "M = take (Suc i2) R"
  have Mne: "M \<noteq> []" using Rne by (simp add: M_def)
  have Mhd: "hd M = R ! 0" using Rne by (simp add: M_def hd_conv_nth)
  have "M = take i2 R @ [R ! i2]"
    unfolding M_def using i2lt by (rule take_Suc_conv_app_nth)
  then have Mlast: "last M = R ! i2" by simp
  have cS: "collapse S = collapse (take i1 S) @ collapse R"
    using collapse_at(1)[OF i1lt nw1] by (simp add: R_def)
  have cR: "collapse R = collapse M @ collapse (drop (Suc i2) R)"
  proof -
    have "R = take i2 R @ R ! i2 # drop (Suc i2) R" using i2lt by (simp add: id_take_nth_drop)
    then have "collapse R = collapse (take i2 R) @ R ! i2 # collapse (drop (Suc i2) R)"
      using collapse_split[OF nw2] by metis
    moreover have "collapse M = collapse (take i2 R) @ [R ! i2]"
      using collapse_at(2)[OF i2lt nw2] by (simp add: M_def)
    ultimately show ?thesis by simp
  qed
  have cMne: "collapse M \<noteq> []" and cMhd: "\<not> isspace (hd (collapse M))"
    and cMlast: "\<not> isspace (last (collapse M))"
  proof -
    have f: "filter nonws (collapse M) = filter nonws M" by (rule collapse_filter)
    have nwhd: "\<not> isspace (hd M)" using Mhd Rhd nw1 by simp
    obtain c cs where M1: "M = c # cs" using Mne by (cases M) auto
    with nwhd have "collapse M = c # collapse cs" using collapse_Cons by simp
    then show "collapse M \<noteq> []" "\<not> isspace (hd (collapse M))" using nwhd M1 by simp_all
    have "M = butlast M @ [last M]" using Mne by simp
    then have "collapse M = collapse (butlast M) @ [last M]"
      using collapse_snoc[of "last M" "butlast M"] Mlast nw2 by simp
    then show "\<not> isspace (last (collapse M))" using Mlast nw2 by simp
  qed
  have "normalise S = py_strip (collapse (take i1 S) @ collapse M @ collapse (drop (Suc i2) R))"
    using cS cR by (simp add: normalise_collapse)
  also have "\<dots> = py_strip (collapse (take i1 S) @ collapse M)"
    using py_strip_append_space[OF collapse_all_space[OF W2],
            of "collapse (take i1 S) @ collapse M"] by simp
  also have "\<dots> = py_strip (collapse M)"
  proof -
    have "dropWhile isspace (collapse (take i1 S) @ collapse M) = dropWhile isspace (collapse M)"
      using collapse_all_space[OF W1] by (intro dropWhile_append2) simp
    then show ?thesis by (simp add: py_strip_def)
  qed
  also have "\<dots> = collapse M" using cMne cMhd cMlast by (intro py_strip_fix) simp
  finally have patM: "collapse M = pat" using nm by (simp add: S_def)
  have Sle: "i1 < length (drop a tx)" "S ! i1 = drop a tx ! i1"
    using i1lt by (simp_all add: S_def)
  define j where "j = a + i1"
  have jlt: "j < length tx" and txj: "tx ! j = S ! i1"
    using Sle by (simp_all add: j_def)
  have nwj: "\<not> isspace (tx ! j)" using txj nw1 by simp
  have Rtx: "R = take (n - i1) (drop j tx)"
    by (simp add: R_def S_def j_def drop_take add.commute)
  have "i2 < length (take (n - i1) (drop j tx))" using i2lt Rtx by simp
  then have i2n: "i2 < n - i1" and i2d: "i2 < length (drop j tx)" by simp_all
  have "take (Suc i2) (take (n - i1) (drop j tx)) = take (Suc i2) (drop j tx)"
    using i2n by (simp add: min_def)
  then have Mtx: "M = take (Suc i2) (drop j tx)" by (simp add: M_def Rtx)
  have Ri2: "drop j tx ! i2 = R ! i2" using i2n by (simp add: Rtx)
  have "collapse (drop j tx) = collapse M @ collapse (drop (Suc i2) (drop j tx))"
  proof -
    let ?D = "drop j tx"
    have nwD: "\<not> isspace (?D ! i2)" using Ri2 nw2 by simp
    have "?D = take i2 ?D @ ?D ! i2 # drop (Suc i2) ?D" using i2d by (rule id_take_nth_drop)
    then have "collapse ?D = collapse (take i2 ?D) @ ?D ! i2 # collapse (drop (Suc i2) ?D)"
      using collapse_split[OF nwD] by metis
    moreover have "collapse (take (Suc i2) ?D) = collapse (take i2 ?D) @ [?D ! i2]"
      using collapse_at(2)[OF i2d nwD] .
    ultimately show ?thesis by (simp add: Mtx)
  qed
  then have "collapse tx
      = collapse (take j tx) @ pat @ collapse (drop (Suc i2) (drop j tx))"
    using collapse_at(1)[OF jlt nwj] patM by simp
  then have "normalise tx
      = py_strip (collapse (take j tx) @ pat @ collapse (drop (Suc i2) (drop j tx)))"
    by (simp add: normalise_collapse)
  with py_strip_keeps[OF ne hdp lastp] obtain a' b' where "normalise tx = a' @ pat @ b'"
    by metis
  then show ?thesis using occurs_at_middle by metis
qed

section \<open>Start anchors: the round trip\<close>

text \<open>
  Claim C2, amended: let the marker be a whitespace variant of a substring of the text
  (some slice \<open>text[a : a+n]\<close> normalises to the normalised marker) with a non-empty
  normalised form. Then the locator returns the pair \<open>(j, len(marker))\<close>, where \<open>j\<close> is the
  value of the position map at the normalised offset \<open>p\<close> that the selector chose among
  the occurrences of the normalised marker. The offset is valid: the text at \<open>j\<close> carries
  the first character of the normalised marker, and some slice \<open>text[j : j+L]\<close>
  normalises to the normalised marker. The slice with the returned length,
  \<open>text[j : j+len(marker)]\<close>, normalises to the normalised marker exactly when it holds
  the same non-whitespace characters as the marker; this is so in particular when text
  and marker are already normalised, where the slice is the marker itself.
\<close>

theorem locate_anchor_start_round_trip:
  assumes "normalise marker \<noteq> []"
    and "normalise (py_slice tx (int a) (int a + int n)) = normalise marker"
  shows "\<exists>m p j L rest.
           locate_anchor tx marker True = Inr (int j, int (length marker))
         \<and> map_norm_to_orig tx (normalise tx) = Inr m \<and> m (int p) = Some j
         \<and> occurs_at (normalise marker) (normalise tx) p
         \<and> pick_best_occurrence (py_finditer (normalise marker) (normalise tx)) (normalise tx)
              (int (length (normalise marker))) = Inr (int p)
         \<and> j < length tx \<and> tx ! j = hd (normalise marker)
         \<and> filter (\<lambda>c. \<not> isspace c) (take j tx)
             = filter (\<lambda>c. \<not> isspace c) (take p (normalise tx))
         \<and> filter (\<lambda>c. \<not> isspace c) (drop j tx)
             = filter (\<lambda>c. \<not> isspace c) (normalise marker) @ rest
         \<and> 0 < L \<and> j + L \<le> length tx
         \<and> normalise (py_slice tx (int j) (int j + int L)) = normalise marker
         \<and> (normalise (py_slice tx (int j) (int j + int (length marker))) = normalise marker
              \<longleftrightarrow> filter (\<lambda>c. \<not> isspace c) (py_slice tx (int j) (int j + int (length marker)))
                    = filter (\<lambda>c. \<not> isspace c) marker)
         \<and> (normalise tx = tx \<and> normalise marker = marker \<longrightarrow>
               py_slice tx (int j) (int j + int (length marker)) = marker
             \<and> normalise (py_slice tx (int j) (int j + int (length marker)))
                 = normalise marker)"
proof -
  from assms(2) have "normalise (take n (drop a tx)) = normalise marker"
    by (simp add: py_slice_from)
  from substring_occurs[OF this assms(1)] obtain q where
    "occurs_at (normalise marker) (normalise tx) q" by blast
  from start_round_trip_occ[OF assms(1) this] show ?thesis .
qed

theorem locate_anchor_start_round_trip_witness:
  "normalise (py_str ''a  b'') \<noteq> []
   \<and> py_slice (py_str ''x  a'' @ [9, 9] @ py_str ''b  c'') (int 2) (int 2 + int 6)
       = [SP, 97, 9, 9, 98, SP]
   \<and> normalise (py_slice (py_str ''x  a'' @ [9, 9] @ py_str ''b  c'') (int 2) (int 2 + int 6))
       = normalise (py_str ''a  b'')
   \<and> normalise (py_str ''x  a'' @ [9, 9] @ py_str ''b  c'') = py_str ''x a b c''
   \<and> locate_anchor (py_str ''x  a'' @ [9, 9] @ py_str ''b  c'') (py_str ''a  b'') True
       = Inr (3, 4)
   \<and> py_slice (py_str ''x  a'' @ [9, 9] @ py_str ''b  c'') 3 (3 + 4) = [97, 9, 9, 98]
   \<and> normalise (py_slice (py_str ''x  a'' @ [9, 9] @ py_str ''b  c'') 3 (3 + 4))
       = normalise (py_str ''a  b'')
   \<and> locate_anchor (py_str ''CHAPTER ONE continues here'' @ [LF] @ py_str ''CHAPTER ONE''
                    @ [LF, LF] @ py_str ''It was a dark night'')
        (py_str ''CHAPTER ONE'') True = Inr (27, 11)"
proof -
  let ?tx = "py_str ''x  a'' @ [9, 9] @ py_str ''b  c''"
  let ?mk = "py_str ''a  b''"
  have ne: "normalise ?mk \<noteq> []" by code_simp
  have sub: "py_slice ?tx (int 2) (int 2 + int 6) = [SP, 97, 9, 9, 98, SP]" by code_simp
  have hyp: "normalise (py_slice ?tx (int 2) (int 2 + int 6)) = normalise ?mk" by code_simp
  have nt: "normalise ?tx = py_str ''x a b c''" by code_simp
  have loc: "locate_anchor ?tx ?mk True = Inr (3, 4)" by code_simp
  have sl: "py_slice ?tx 3 (3 + 4) = [97, 9, 9, 98]" by code_simp
  have par: "filter (\<lambda>c. \<not> isspace c) (py_slice ?tx 3 (3 + 4))
             = filter (\<lambda>c. \<not> isspace c) ?mk" by code_simp
  have len: "int (length ?mk) = 4" by code_simp
  from locate_anchor_start_round_trip[OF ne hyp] obtain j where
    j: "locate_anchor ?tx ?mk True = Inr (int j, int (length ?mk))"
    and iff: "normalise (py_slice ?tx (int j) (int j + int (length ?mk))) = normalise ?mk
              \<longleftrightarrow> filter (\<lambda>c. \<not> isspace c) (py_slice ?tx (int j) (int j + int (length ?mk)))
                    = filter (\<lambda>c. \<not> isspace c) ?mk"
    by blast
  from j loc have "int j = 3" by simp
  with iff par len have rt: "normalise (py_slice ?tx 3 (3 + 4)) = normalise ?mk" by simp
  have toc: "locate_anchor (py_str ''CHAPTER ONE continues here'' @ [LF] @ py_str ''CHAPTER ONE''
                    @ [LF, LF] @ py_str ''It was a dark night'')
        (py_str ''CHAPTER ONE'') True = Inr (27, 11)" by code_simp
  from ne sub hyp nt loc sl rt toc show ?thesis by blast
qed

section \<open>The single-line fallback: what it returns\<close>

lemma py_strip_nonempty_iff: "py_strip l \<noteq> [] \<longleftrightarrow> (\<exists>c\<in>set l. \<not> isspace c)"
proof
  assume "py_strip l \<noteq> []"
  then show "\<exists>c\<in>set l. \<not> isspace c" using py_strip_all_space[of l] by blast
next
  assume "\<exists>c\<in>set l. \<not> isspace c"
  then have "filter nonws l \<noteq> []" by (simp add: filter_empty_conv)
  then have "filter nonws (py_strip l) \<noteq> []" by (simp add: py_strip_filter)
  then show "py_strip l \<noteq> []" by auto
qed

lemma marker_lines_char:
  "marker_lines marker = filter (\<lambda>l. \<exists>c\<in>set l. \<not> isspace c) (py_split_nl marker)"
  unfolding marker_lines_def by (simp add: py_strip_nonempty_iff)

lemma line_marker_ends:
  assumes "marker_lines marker \<noteq> []"
  shows "line_marker marker is_start \<noteq> []"
    and "\<not> isspace (hd (line_marker marker is_start))"
    and "\<not> isspace (last (line_marker marker is_start))"
    and "\<exists>l. l \<in> set (py_split_nl marker) \<and> line_marker marker is_start = normalise l"
proof -
  define l where "l = (if is_start then hd (marker_lines marker) else last (marker_lines marker))"
  have lm: "line_marker marker is_start = normalise l" by (simp add: line_marker_def l_def)
  have "l \<in> set (marker_lines marker)" using assms by (simp add: l_def)
  then have mem: "l \<in> set (py_split_nl marker)" and "\<exists>c\<in>set l. \<not> isspace c"
    by (simp_all add: marker_lines_char)
  then have "filter nonws l \<noteq> []" by (simp add: filter_empty_conv)
  then have "filter nonws (normalise l) \<noteq> []" by (simp add: normalise_filter)
  then have ne: "normalise l \<noteq> []" by auto
  then show "line_marker marker is_start \<noteq> []" using lm by simp
  show "\<not> isspace (hd (line_marker marker is_start))"
    using normalise_hd_nonws[OF ne] lm by simp
  show "\<not> isspace (last (line_marker marker is_start))"
    using normalise_last_nonws[OF ne] lm by simp
  show "\<exists>l. l \<in> set (py_split_nl marker) \<and> line_marker marker is_start = normalise l"
    using mem lm by blast
qed

text \<open>
  Claim C3: when Strategy 1 returns nothing, the locator returns what Strategy 2
  computes. The lines kept are those with a non-whitespace character; without one (so
  for a marker of whitespace only) the result is \<open>(-1, 0)\<close>. Otherwise the first (start)
  or last (end) kept line is normalised, which leaves a non-empty string with
  non-whitespace ends, and searched in the normalised text: when it does not occur the
  result is \<open>(-1, 0)\<close>; when it occurs, an offset \<open>p\<close> of it is chosen (by the selector for
  a start anchor, the last found for an end anchor), the result is \<open>(-1, 0)\<close> if \<open>p\<close> is no
  key of the position map and the mapped offset with the length of the normalised line
  otherwise. Here \<open>p\<close> always is a key: the mapped offset \<open>j\<close> indexes the character of the
  text that starts the line, with the same non-whitespace characters before it as
  before \<open>p\<close>, and a slice of the text from \<open>j\<close> normalises to the line.
\<close>

theorem locate_anchor_fallback:
  "\<exists>m. map_norm_to_orig tx (normalise tx) = Inr m \<and>
     (\<forall>r. strategy1 marker (normalise tx) (normalise marker) m is_start = Inr (Some r) \<longrightarrow>
          locate_anchor tx marker is_start = Inr r) \<and>
     (strategy1 marker (normalise tx) (normalise marker) m is_start = Inr None \<longrightarrow>
        (marker_lines marker = [] \<longrightarrow> locate_anchor tx marker is_start = Inr (- 1, 0))
      \<and> (marker_lines marker \<noteq> []
           \<and> (\<forall>p. \<not> occurs_at (line_marker marker is_start) (normalise tx) p) \<longrightarrow>
             locate_anchor tx marker is_start = Inr (- 1, 0))
      \<and> (marker_lines marker \<noteq> []
           \<and> (\<exists>p. occurs_at (line_marker marker is_start) (normalise tx) p) \<longrightarrow>
             (\<exists>p j L. occurs_at (line_marker marker is_start) (normalise tx) p
                \<and> (if is_start
                    then pick_best_occurrence
                           (py_finditer (line_marker marker is_start) (normalise tx))
                           (normalise tx) (int (length (line_marker marker is_start)))
                         = Inr (int p)
                    else int p = last (py_finditer (line_marker marker is_start) (normalise tx)))
                \<and> locate_anchor tx marker is_start =
                    (case m (int p) of
                       None \<Rightarrow> Inr (- 1, 0)
                     | Some j \<Rightarrow> Inr (int j, int (length (line_marker marker is_start))))
                \<and> m (int p) = Some j
                \<and> locate_anchor tx marker is_start
                    = Inr (int j, int (length (line_marker marker is_start)))
                \<and> j < length tx \<and> tx ! j = hd (line_marker marker is_start)
                \<and> filter (\<lambda>c. \<not> isspace c) (take j tx)
                    = filter (\<lambda>c. \<not> isspace c) (take p (normalise tx))
                \<and> 0 < L \<and> j + L \<le> length tx
                \<and> normalise (py_slice tx (int j) (int j + int L))
                    = line_marker marker is_start)))
   \<and> marker_lines marker = filter (\<lambda>l. \<exists>c\<in>set l. \<not> isspace c) (py_split_nl marker)
   \<and> (marker_lines marker \<noteq> [] \<longrightarrow>
         line_marker marker is_start \<noteq> []
       \<and> \<not> isspace (hd (line_marker marker is_start))
       \<and> \<not> isspace (last (line_marker marker is_start))
       \<and> (\<exists>l. l \<in> set (py_split_nl marker) \<and> line_marker marker is_start = normalise l))
   \<and> ((\<forall>c\<in>set marker. isspace c) \<longrightarrow> marker_lines marker = [])
   \<and> locate_anchor (py_str ''hello world'') (py_str ''goodbye'') True = Inr (- 1, 0)"
proof -
  let ?nt = "normalise tx"
  let ?lm = "line_marker marker is_start"
  from char_map_exists[of tx] obtain m where
    m: "map_norm_to_orig tx ?nt = Inr m" and ok: "map_ok tx ?nt m" by blast
  have some: "\<forall>r. strategy1 marker ?nt (normalise marker) m is_start = Inr (Some r) \<longrightarrow>
          locate_anchor tx marker is_start = Inr r"
    by (simp add: locate_anchor_unfold[OF m])
  have fall: "strategy1 marker ?nt (normalise marker) m is_start = Inr None \<Longrightarrow>
      locate_anchor tx marker is_start = strategy2 marker ?nt m is_start"
    by (simp add: locate_anchor_unfold[OF m])
  have a: "marker_lines marker = [] \<Longrightarrow> strategy2 marker ?nt m is_start = Inr (- 1, 0)"
    unfolding marker_lines_def by (rule strategy2_no_lines)
  have b: "\<forall>p. \<not> occurs_at ?lm ?nt p \<Longrightarrow> strategy2 marker ?nt m is_start = Inr (- 1, 0)"
  proof -
    assume "\<forall>p. \<not> occurs_at ?lm ?nt p"
    then have "py_finditer ?lm ?nt = []" by (simp add: py_finditer_empty)
    then show ?thesis
      unfolding line_marker_def marker_lines_def by (rule strategy2_absent)
  qed
  have c: "marker_lines marker \<noteq> [] \<Longrightarrow> \<exists>p. occurs_at ?lm ?nt p \<Longrightarrow>
      \<exists>p j L. occurs_at ?lm ?nt p
         \<and> (if is_start
             then pick_best_occurrence (py_finditer ?lm ?nt) ?nt (int (length ?lm)) = Inr (int p)
             else int p = last (py_finditer ?lm ?nt))
         \<and> strategy2 marker ?nt m is_start =
             (case m (int p) of None \<Rightarrow> Inr (- 1, 0) | Some j \<Rightarrow> Inr (int j, int (length ?lm)))
         \<and> m (int p) = Some j
         \<and> strategy2 marker ?nt m is_start = Inr (int j, int (length ?lm))
         \<and> j < length tx \<and> tx ! j = hd ?lm
         \<and> filter nonws (take j tx) = filter nonws (take p ?nt)
         \<and> 0 < L \<and> j + L \<le> length tx
         \<and> normalise (py_slice tx (int j) (int j + int L)) = ?lm"
  proof -
    assume ne: "marker_lines marker \<noteq> []" and ex: "\<exists>p. occurs_at ?lm ?nt p"
    from ex have ps: "py_finditer ?lm ?nt \<noteq> []" by (simp add: py_finditer_empty)
    have l: "filter (\<lambda>line. py_strip line \<noteq> []) (py_split_nl marker) = marker_lines marker"
      by (simp add: marker_lines_def)
    have lm: "?lm = normalise (if is_start then hd (marker_lines marker)
                               else last (marker_lines marker))"
      by (simp add: line_marker_def)
    from strategy2_found[OF l ne lm ps, of m] obtain q where
      q: "q \<in> set (py_finditer ?lm ?nt)"
         "if is_start
          then pick_best_occurrence (py_finditer ?lm ?nt) ?nt (int (length ?lm)) = Inr q
          else q = last (py_finditer ?lm ?nt)"
         "strategy2 marker ?nt m is_start =
            (case m q of None \<Rightarrow> Inr (- 1, 0) | Some j \<Rightarrow> Inr (int j, int (length ?lm)))"
      by blast
    from py_finditer_sound[OF q(1)] obtain p where p: "q = int p" "occurs_at ?lm ?nt p"
      by blast
    note e = line_marker_ends[OF ne, of is_start]
    from occurrence_in_map[OF ok p(2) e(1,2)] obtain j where
      j: "m (int p) = Some j" "j < length tx" "tx ! j = hd ?lm"
         "filter nonws (take j tx) = filter nonws (take p ?nt)" by blast
    from occurrence_extent[OF ok p(2) e(1,2,3) j(1)] obtain L where
      L: "0 < L" "j + L \<le> length tx" "normalise (take L (drop j tx)) = ?lm" by blast
    have v: "normalise (py_slice tx (int j) (int j + int L)) = ?lm"
      using L(3) by (simp add: py_slice_from)
    have s: "strategy2 marker ?nt m is_start = Inr (int j, int (length ?lm))"
      using q(3) p(1) j(1) by simp
    have q2: "if is_start
          then pick_best_occurrence (py_finditer ?lm ?nt) ?nt (int (length ?lm)) = Inr (int p)
          else int p = last (py_finditer ?lm ?nt)"
      using q(2) unfolding p(1) .
    have q3: "strategy2 marker ?nt m is_start =
            (case m (int p) of None \<Rightarrow> Inr (- 1, 0)
             | Some j \<Rightarrow> Inr (int j, int (length ?lm)))"
      using q(3) unfolding p(1) .
    show ?thesis
      by (intro exI[of _ p] exI[of _ j] exI[of _ L] conjI)
         (rule p(2) q2 q3 j(1) s j(2) j(3) j(4) L(1) L(2) v)+
  qed
  have d: "(\<forall>c\<in>set marker. isspace c) \<longrightarrow> marker_lines marker = []"
    using marker_lines_all_space by blast
  have e: "locate_anchor (py_str ''hello world'') (py_str ''goodbye'') True = Inr (- 1, 0)"
    by code_simp
  have f: "marker_lines marker \<noteq> [] \<longrightarrow>
         ?lm \<noteq> [] \<and> \<not> isspace (hd ?lm) \<and> \<not> isspace (last ?lm)
       \<and> (\<exists>l. l \<in> set (py_split_nl marker) \<and> ?lm = normalise l)"
    using line_marker_ends[of marker is_start] by blast
  have s2: "strategy1 marker ?nt (normalise marker) m is_start = Inr None \<longrightarrow>
        (marker_lines marker = [] \<longrightarrow> locate_anchor tx marker is_start = Inr (- 1, 0))
      \<and> (marker_lines marker \<noteq> [] \<and> (\<forall>p. \<not> occurs_at ?lm ?nt p) \<longrightarrow>
             locate_anchor tx marker is_start = Inr (- 1, 0))
      \<and> (marker_lines marker \<noteq> [] \<and> (\<exists>p. occurs_at ?lm ?nt p) \<longrightarrow>
             (\<exists>p j L. occurs_at ?lm ?nt p
                \<and> (if is_start
                    then pick_best_occurrence (py_finditer ?lm ?nt) ?nt (int (length ?lm))
                         = Inr (int p)
                    else int p = last (py_finditer ?lm ?nt))
                \<and> locate_anchor tx marker is_start =
                    (case m (int p) of
                       None \<Rightarrow> Inr (- 1, 0)
                     | Some j \<Rightarrow> Inr (int j, int (length ?lm)))
                \<and> m (int p) = Some j
                \<and> locate_anchor tx marker is_start = Inr (int j, int (length ?lm))
                \<and> j < length tx \<and> tx ! j = hd ?lm
                \<and> filter nonws (take j tx) = filter nonws (take p ?nt)
                \<and> 0 < L \<and> j + L \<le> length tx
                \<and> normalise (py_slice tx (int j) (int j + int L)) = ?lm))"
  proof (intro impI conjI)
    assume s: "strategy1 marker ?nt (normalise marker) m is_start = Inr None"
      and "marker_lines marker = []"
    then show "locate_anchor tx marker is_start = Inr (- 1, 0)" using fall a by simp
  next
    assume s: "strategy1 marker ?nt (normalise marker) m is_start = Inr None"
      and "marker_lines marker \<noteq> [] \<and> (\<forall>p. \<not> occurs_at ?lm ?nt p)"
    then show "locate_anchor tx marker is_start = Inr (- 1, 0)" using fall b by simp
  next
    assume s: "strategy1 marker ?nt (normalise marker) m is_start = Inr None"
      and h: "marker_lines marker \<noteq> [] \<and> (\<exists>p. occurs_at ?lm ?nt p)"
    from c h obtain p j L where r: "occurs_at ?lm ?nt p"
         "if is_start
          then pick_best_occurrence (py_finditer ?lm ?nt) ?nt (int (length ?lm)) = Inr (int p)
          else int p = last (py_finditer ?lm ?nt)"
         "strategy2 marker ?nt m is_start =
             (case m (int p) of None \<Rightarrow> Inr (- 1, 0) | Some j \<Rightarrow> Inr (int j, int (length ?lm)))"
         "m (int p) = Some j"
         "strategy2 marker ?nt m is_start = Inr (int j, int (length ?lm))"
         "j < length tx" "tx ! j = hd ?lm"
         "filter nonws (take j tx) = filter nonws (take p ?nt)"
         "0 < L" "j + L \<le> length tx"
         "normalise (py_slice tx (int j) (int j + int L)) = ?lm"
      by blast
    have "occurs_at ?lm ?nt p
                \<and> (if is_start
                    then pick_best_occurrence (py_finditer ?lm ?nt) ?nt (int (length ?lm))
                         = Inr (int p)
                    else int p = last (py_finditer ?lm ?nt))
                \<and> locate_anchor tx marker is_start =
                    (case m (int p) of
                       None \<Rightarrow> Inr (- 1, 0)
                     | Some j \<Rightarrow> Inr (int j, int (length ?lm)))
                \<and> m (int p) = Some j
                \<and> locate_anchor tx marker is_start = Inr (int j, int (length ?lm))
                \<and> j < length tx \<and> tx ! j = hd ?lm
                \<and> filter nonws (take j tx) = filter nonws (take p ?nt)
                \<and> 0 < L \<and> j + L \<le> length tx
                \<and> normalise (py_slice tx (int j) (int j + int L)) = ?lm"
      using r fall[OF s] by simp
    then show "\<exists>p j L. occurs_at ?lm ?nt p
                \<and> (if is_start
                    then pick_best_occurrence (py_finditer ?lm ?nt) ?nt (int (length ?lm))
                         = Inr (int p)
                    else int p = last (py_finditer ?lm ?nt))
                \<and> locate_anchor tx marker is_start =
                    (case m (int p) of
                       None \<Rightarrow> Inr (- 1, 0)
                     | Some j \<Rightarrow> Inr (int j, int (length ?lm)))
                \<and> m (int p) = Some j
                \<and> locate_anchor tx marker is_start = Inr (int j, int (length ?lm))
                \<and> j < length tx \<and> tx ! j = hd ?lm
                \<and> filter nonws (take j tx) = filter nonws (take p ?nt)
                \<and> 0 < L \<and> j + L \<le> length tx
                \<and> normalise (py_slice tx (int j) (int j + int L)) = ?lm"
      by blast
  qed
  from m some s2 marker_lines_char[of marker] f d e show ?thesis by blast
qed

theorem locate_anchor_fallback_witness:
  "(case map_norm_to_orig (py_str ''  x CHAPTER I'' @ [CR, LF, CR, LF] @ py_str ''bar'')
          (normalise (py_str ''  x CHAPTER I'' @ [CR, LF, CR, LF] @ py_str ''bar'')) of
      Inl e \<Rightarrow> False
    | Inr m \<Rightarrow> strategy1 (py_str ''CHAPTER   I'' @ [LF] @ py_str ''foo'')
          (normalise (py_str ''  x CHAPTER I'' @ [CR, LF, CR, LF] @ py_str ''bar''))
          (normalise (py_str ''CHAPTER   I'' @ [LF] @ py_str ''foo'')) m True = Inr None)
   \<and> marker_lines (py_str ''CHAPTER   I'' @ [LF] @ py_str ''foo'')
       = [py_str ''CHAPTER   I'', py_str ''foo'']
   \<and> marker_lines (py_str ''CHAPTER   I'' @ [LF] @ py_str ''foo'') \<noteq> []
   \<and> line_marker (py_str ''CHAPTER   I'' @ [LF] @ py_str ''foo'') True = py_str ''CHAPTER I''
   \<and> length (py_str ''CHAPTER   I'') = 11
   \<and> occurs_at (line_marker (py_str ''CHAPTER   I'' @ [LF] @ py_str ''foo'') True)
        (normalise (py_str ''  x CHAPTER I'' @ [CR, LF, CR, LF] @ py_str ''bar'')) 2
   \<and> locate_anchor (py_str ''  x CHAPTER I'' @ [CR, LF, CR, LF] @ py_str ''bar'')
        (py_str ''CHAPTER   I'' @ [LF] @ py_str ''foo'') True = Inr (4, 9)
   \<and> locate_anchor (py_str ''  x CHAPTER I'' @ [CR, LF, CR, LF] @ py_str ''bar'')
        (py_str ''foo'' @ [LF] @ py_str ''  CHAPTER   I  '' @ [LF, SP]) False = Inr (4, 9)"
proof -
  let ?tx = "py_str ''  x CHAPTER I'' @ [CR, LF, CR, LF] @ py_str ''bar''"
  let ?mk = "py_str ''CHAPTER   I'' @ [LF] @ py_str ''foo''"
  have s: "case map_norm_to_orig ?tx (normalise ?tx) of
      Inl e \<Rightarrow> False
    | Inr m \<Rightarrow> strategy1 ?mk (normalise ?tx) (normalise ?mk) m True = Inr None"
    by code_simp
  have ml: "marker_lines ?mk = [py_str ''CHAPTER   I'', py_str ''foo'']" by code_simp
  then have ne: "marker_lines ?mk \<noteq> []" by simp
  have lmv: "line_marker ?mk True = py_str ''CHAPTER I''" by code_simp
  have raw: "length (py_str ''CHAPTER   I'') = 11" by code_simp
  have len: "int (length (line_marker ?mk True)) = 9" by code_simp
  have oc: "occurs_at (line_marker ?mk True) (normalise ?tx) 2" by code_simp
  have only: "\<forall>p. occurs_at (line_marker ?mk True) (normalise ?tx) p \<longrightarrow> p = 2"
  proof (intro allI impI)
    fix p assume o: "occurs_at (line_marker ?mk True) (normalise ?tx) p"
    have l9: "length (line_marker ?mk True) = 9" by code_simp
    have l16: "length (normalise ?tx) = 16" by code_simp
    from o have "length (take (length (line_marker ?mk True)) (drop p (normalise ?tx)))
        = length (line_marker ?mk True)" by (simp only: occurs_at_def)
    then have "min 9 (16 - p) = 9" by (simp only: length_take length_drop l9 l16)
    then have "p \<le> 7" by arith
    then have "p \<in> set [0..<8]" by simp
    moreover have "\<forall>p\<in>set [0..<8]. occurs_at (line_marker ?mk True) (normalise ?tx) p
        \<longrightarrow> p = 2" by code_simp
    ultimately show "p = 2" using o by blast
  qed
  have c4: "(case map_norm_to_orig ?tx (normalise ?tx) of Inl e \<Rightarrow> None | Inr m \<Rightarrow> m 2) = Some 4"
    by code_simp
  from locate_anchor_fallback[of ?tx ?mk True] obtain m where
    m: "map_norm_to_orig ?tx (normalise ?tx) = Inr m"
    and f: "strategy1 ?mk (normalise ?tx) (normalise ?mk) m True = Inr None \<longrightarrow>
        (marker_lines ?mk \<noteq> [] \<and> (\<exists>p. occurs_at (line_marker ?mk True) (normalise ?tx) p) \<longrightarrow>
             (\<exists>p j. occurs_at (line_marker ?mk True) (normalise ?tx) p
                \<and> m (int p) = Some j
                \<and> locate_anchor ?tx ?mk True
                    = Inr (int j, int (length (line_marker ?mk True)))))"
    by auto
  from s m have "strategy1 ?mk (normalise ?tx) (normalise ?mk) m True = Inr None" by simp
  with f ne oc obtain p j where pj: "occurs_at (line_marker ?mk True) (normalise ?tx) p"
      "m (int p) = Some j"
      "locate_anchor ?tx ?mk True = Inr (int j, int (length (line_marker ?mk True)))"
    by blast
  from only pj(1) have "p = 2" by blast
  with pj(2) c4 m have "j = 4" by simp
  with pj(3) len have loc: "locate_anchor ?tx ?mk True = Inr (4, 9)" by simp
  have loc2: "locate_anchor ?tx (py_str ''foo'' @ [LF] @ py_str ''  CHAPTER   I  '' @ [LF, SP])
      False = Inr (4, 9)" by code_simp
  from s ml ne lmv raw oc loc loc2 show ?thesis by blast
qed

end
